theory Spec2Isabelle
  imports Main "HOL-Library.Sublist" "HOL-Library.Word"
begin

section \<open>Text and character classes\<close>

text \<open>
  A Python \<open>str\<close> is a sequence of code points. The model keeps the code points
  0..255 (the Latin-1 range) as \<open>char\<close>, and writes out on that range the tables
  that \<open>str.isspace\<close>, \<open>str.isdecimal\<close>, \<open>str.isalnum\<close> and
  \<open>str.lower\<close> use, which are also the tables behind \<open>\s\<close>, \<open>\d\<close>,
  \<open>\w\<close> and \<open>re.IGNORECASE\<close> for a \<open>str\<close> pattern.
\<close>

definition isspace :: "char \<Rightarrow> bool" where
  "isspace c =
     (let n = (of_char c :: nat)
      in (9 \<le> n \<and> n \<le> 13) \<or> (28 \<le> n \<and> n \<le> 32) \<or> n = 133 \<or> n = 160)"

definition isdecimal :: "char \<Rightarrow> bool" where
  "isdecimal c = (let n = (of_char c :: nat) in 48 \<le> n \<and> n \<le> 57)"

definition isalpha :: "char \<Rightarrow> bool" where
  "isalpha c =
     (let n = (of_char c :: nat)
      in (65 \<le> n \<and> n \<le> 90) \<or> (97 \<le> n \<and> n \<le> 122) \<or> n = 170 \<or> n = 181 \<or> n = 186
         \<or> (192 \<le> n \<and> n \<le> 214) \<or> (216 \<le> n \<and> n \<le> 246) \<or> 248 \<le> n)"

definition isalnum :: "char \<Rightarrow> bool" where
  "isalnum c =
     (let n = (of_char c :: nat)
      in isalpha c \<or> isdecimal c \<or> n = 178 \<or> n = 179 \<or> n = 185 \<or> (188 \<le> n \<and> n \<le> 190))"

definition isword :: "char \<Rightarrow> bool" where
  "isword c = (isalnum c \<or> c = CHR ''_'')"

definition tolower :: "char \<Rightarrow> char" where
  "tolower c =
     (let n = (of_char c :: nat)
      in if (65 \<le> n \<and> n \<le> 90) \<or> (192 \<le> n \<and> n \<le> 222 \<and> n \<noteq> 215)
         then char_of (n + 32) else c)"

section \<open>The regular expressions of the extractor\<close>

text \<open>
  The fragment of Python's \<open>re\<close> syntax that the five patterns use: character
  classes, repetition of one class (\<open>*\<close>, \<open>+?\<close>, \<open>?\<close>, \<open>{m,n}\<close>), alternation,
  lookahead, \<open>\b\<close>, \<open>\Z\<close> and one capturing group.
\<close>

datatype cset = Ch char | Space | NotSpace | Digit | Word | Either cset cset

fun in_cset :: "bool \<Rightarrow> cset \<Rightarrow> char \<Rightarrow> bool" where
  "in_cset ic (Ch c) x = (if ic then tolower x = tolower c else x = c)"
| "in_cset ic Space x = isspace x"
| "in_cset ic NotSpace x = (\<not> isspace x)"
| "in_cset ic Digit x = isdecimal x"
| "in_cset ic Word x = isword x"
| "in_cset ic (Either p q) x = (in_cset ic p x \<or> in_cset ic q x)"

datatype rx =
    One cset
  | Rep cset nat "nat option" bool
  | Alt "rx list list"
  | Ahead "rx list list"
  | WordBoundary
  | EndZ
  | GOpen
  | GClose

text \<open>
  A matcher state is the text left of the cursor (nearest character first), the text
  right of it, and the text left of the cursor when group 1 was opened and closed.
\<close>

type_synonym mstate = "string \<times> string \<times> string \<times> string"

fun dec :: "nat option \<Rightarrow> nat option" where
  "dec None = None"
| "dec (Some h) = Some (h - 1)"

fun at_boundary :: "string \<Rightarrow> string \<Rightarrow> bool" where
  "at_boundary [] [] = False"
| "at_boundary [] (x # xs) = isword x"
| "at_boundary (p # ps) [] = isword p"
| "at_boundary (p # ps) (x # xs) = (isword p \<noteq> isword x)"

text \<open>
  The backtracking matcher: \<open>match_here ic rs st\<close> is the first way, in the priority
  order of \<open>re\<close> (greedy repetition tries more first, lazy repetition less first,
  alternatives left to right), to match the sequence \<open>rs\<close> at the cursor of \<open>st\<close>.
\<close>

function (sequential) match_here :: "bool \<Rightarrow> rx list \<Rightarrow> mstate \<Rightarrow> mstate option" where
  "match_here ic [] st = Some st"
| "match_here ic (One c # rs) (b, [], go, gc) = None"
| "match_here ic (One c # rs) (b, x # xs, go, gc) =
     (if in_cset ic c x then match_here ic rs (x # b, xs, go, gc) else None)"
| "match_here ic (Rep c (Suc lo) hi g # rs) (b, [], go, gc) = None"
| "match_here ic (Rep c (Suc lo) hi g # rs) (b, x # xs, go, gc) =
     (if in_cset ic c x then match_here ic (Rep c lo (dec hi) g # rs) (x # b, xs, go, gc)
      else None)"
| "match_here ic (Rep c 0 (Some 0) g # rs) st = match_here ic rs st"
| "match_here ic (Rep c 0 hi g # rs) (b, [], go, gc) = match_here ic rs (b, [], go, gc)"
| "match_here ic (Rep c 0 hi True # rs) (b, x # xs, go, gc) =
     (if in_cset ic c x
      then (case match_here ic (Rep c 0 (dec hi) True # rs) (x # b, xs, go, gc) of
              Some r \<Rightarrow> Some r
            | None \<Rightarrow> match_here ic rs (b, x # xs, go, gc))
      else match_here ic rs (b, x # xs, go, gc))"
| "match_here ic (Rep c 0 hi False # rs) (b, x # xs, go, gc) =
     (case match_here ic rs (b, x # xs, go, gc) of
        Some r \<Rightarrow> Some r
      | None \<Rightarrow>
          if in_cset ic c x then match_here ic (Rep c 0 (dec hi) False # rs) (x # b, xs, go, gc)
          else None)"
| "match_here ic (Alt [] # rs) st = None"
| "match_here ic (Alt (a # as) # rs) st =
     (case match_here ic (a @ rs) st of
        Some r \<Rightarrow> Some r
      | None \<Rightarrow> match_here ic (Alt as # rs) st)"
| "match_here ic (Ahead [] # rs) st = None"
| "match_here ic (Ahead (a # as) # rs) st =
     (case match_here ic a st of
        Some r \<Rightarrow> match_here ic rs st
      | None \<Rightarrow> match_here ic (Ahead as # rs) st)"
| "match_here ic (WordBoundary # rs) (b, s, go, gc) =
     (if at_boundary b s then match_here ic rs (b, s, go, gc) else None)"
| "match_here ic (EndZ # rs) (b, s, go, gc) =
     (if s = [] then match_here ic rs (b, s, go, gc) else None)"
| "match_here ic (GOpen # rs) (b, s, go, gc) = match_here ic rs (b, s, b, gc)"
| "match_here ic (GClose # rs) (b, s, go, gc) = match_here ic rs (b, s, go, b)"
  by pat_completeness auto
termination
  by (relation "inv_image (less_than <*lex*> less_than)
        (\<lambda>(ic, rs, (b, s, go, gc)). (length s, size_list size rs))") auto

text \<open>
  \<open>re.search\<close>: the start positions are tried from left to right, the end of the text
  included; a match is the text left of its start together with the final state.
\<close>

type_synonym match = "string \<times> mstate"

fun search_from :: "bool \<Rightarrow> rx list \<Rightarrow> string \<Rightarrow> string \<Rightarrow> match option" where
  "search_from ic rs b [] =
     (case match_here ic rs (b, [], [], []) of Some r \<Rightarrow> Some (b, r) | None \<Rightarrow> None)"
| "search_from ic rs b (x # xs) =
     (case match_here ic rs (b, x # xs, [], []) of
        Some r \<Rightarrow> Some (b, r)
      | None \<Rightarrow> search_from ic rs (x # b) xs)"

definition re_search :: "rx list \<Rightarrow> bool \<Rightarrow> string \<Rightarrow> match option" where
  "re_search pattern ic text = search_from ic pattern [] text"

fun group0 :: "match \<Rightarrow> string" where
  "group0 (b0, (b, s, go, gc)) = rev (take (length b - length b0) b)"

fun group1 :: "match \<Rightarrow> string" where
  "group1 (b0, (b, s, go, gc)) = rev (take (length gc - length go) gc)"

definition lit :: "string \<Rightarrow> rx list" where
  "lit s = map (\<lambda>c. One (Ch c)) s"

definition section_marker :: "rx list" where
  "section_marker = lit ''('' @ [Rep Digit 2 (Some 2) True] @ lit '')''"

definition title_rx :: "rx list" where
  "title_rx =
     lit ''(54)'' @
     [Rep Space 0 None True, GOpen, Rep (Either Space NotSpace) 1 None False, GClose,
      Ahead [section_marker, [Rep (Ch CHR ''\<newline>'') 2 None True], [EndZ]]]"

definition number_rx :: "rx list" where
  "number_rx =
     lit ''US'' @ [One Space, Rep Digit 1 (Some 3) True] @ lit '','' @
     [Rep Digit 3 (Some 3) True] @ lit '','' @
     [Rep Digit 3 (Some 3) True, One Space, One Word, One Digit]"

definition months :: "string list" where
  "months = [''Jan'', ''Feb'', ''Mar'', ''Apr'', ''May'', ''Jun'',
             ''Jul'', ''Aug'', ''Sep'', ''Oct'', ''Nov'', ''Dec'']"

definition date_rx :: "rx list" where
  "date_rx =
     lit ''(45)'' @ [Rep Space 0 None True] @ lit ''Date of Patent:'' @
     [Rep Space 0 None True, GOpen, WordBoundary, Alt (map lit months)] @ lit ''.'' @
     [One Space, Rep Digit 1 (Some 2) True] @ lit '','' @
     [One Space, Rep Digit 4 (Some 4) True, WordBoundary, GClose]"

definition inventors_rx :: "rx list" where
  "inventors_rx =
     lit ''Inventor'' @ [Rep (Ch CHR ''s'') 0 (Some 1) True] @ lit '':'' @
     [Rep Space 0 None True, GOpen, Rep (Either Space NotSpace) 1 None False, GClose,
      Ahead [section_marker, lit ''\<newline>\<newline>'', [EndZ]]]"

definition abstract_rx :: "rx list" where
  "abstract_rx =
     lit ''Abstract'' @ [Rep (Ch CHR '':'') 0 (Some 1) True] @
     [Rep Space 0 None True, GOpen, Rep (Either Space NotSpace) 1 None False, GClose,
      Ahead [lit ''\<newline>\<newline>'', [EndZ]]]"

section \<open>String methods\<close>

definition lstrip :: "string \<Rightarrow> string" where
  "lstrip s = dropWhile isspace s"

definition rstrip :: "string \<Rightarrow> string" where
  "rstrip s = rev (dropWhile isspace (rev s))"

definition strip :: "string \<Rightarrow> string" where
  "strip s = rstrip (lstrip s)"

definition replace_newline :: "string \<Rightarrow> string" where
  "replace_newline s = map (\<lambda>c. if c = CHR ''\<newline>'' then CHR '' '' else c) s"

definition lstrip_chars :: "string \<Rightarrow> string \<Rightarrow> string" where
  "lstrip_chars chars s = dropWhile (\<lambda>c. c \<in> set chars) s"

section \<open>parse_patent_info\<close>

record PatentInfo =
  title :: string
  number :: string
  date :: string
  inventors :: string
  abstract :: string

definition title_match :: "string \<Rightarrow> match option" where
  "title_match text = re_search title_rx True text"

definition number_match :: "string \<Rightarrow> match option" where
  "number_match text = re_search number_rx False text"

definition date_match :: "string \<Rightarrow> match option" where
  "date_match text = re_search date_rx False text"

definition inventors_match :: "string \<Rightarrow> match option" where
  "inventors_match text = re_search inventors_rx True text"

definition abstract_match :: "string \<Rightarrow> match option" where
  "abstract_match text = re_search abstract_rx True text"

definition parse_patent_info :: "string \<Rightarrow> PatentInfo" where
  "parse_patent_info text =
     (let title = (case title_match text of
                     Some mt \<Rightarrow> replace_newline (strip (group1 mt))
                   | None \<Rightarrow> ''Title N/A'');
          title = lstrip_chars '')'' title;
          number = (case number_match text of
                      Some mt \<Rightarrow> group0 mt
                    | None \<Rightarrow> ''PATENT # N/A'');
          date = (case date_match text of
                    Some mt \<Rightarrow> group1 mt
                  | None \<Rightarrow> ''Date N/A'');
          inventors = (case inventors_match text of
                         Some mt \<Rightarrow> replace_newline (strip (group1 mt))
                       | None \<Rightarrow> ''Inventors N/A'');
          abstract = (case abstract_match text of
                        Some mt \<Rightarrow> strip (group1 mt)
                      | None \<Rightarrow> ''Abstract N/A'')
      in \<lparr>title = title, number = number, date = date, inventors = inventors,
          abstract = abstract\<rparr>)"

section \<open>The page pipeline\<close>

text \<open>
  An image is its size and its pixels. \<open>Image.crop\<close> of a box \<open>(left, upper, right,
  lower)\<close> returns the region of size \<open>(right - left, lower - upper)\<close> and raises
  \<open>ValueError\<close> when \<open>right < left\<close> or \<open>lower < upper\<close>.
\<close>

record image =
  width :: nat
  height :: nat
  pixel :: "nat \<times> nat \<Rightarrow> nat"

datatype error = RenderError | RecognitionUnavailable | ValueError

definition crop :: "image \<Rightarrow> nat \<times> nat \<times> nat \<times> nat \<Rightarrow> error + image" where
  "crop im box =
     (case box of (left, upper, right, lower) \<Rightarrow>
        if right < left \<or> lower < upper then Inl ValueError
        else Inr \<lparr>width = right - left, height = lower - upper,
                  pixel = (\<lambda>(x, y). pixel im (x + left, y + upper))\<rparr>)"

definition split_image :: "image \<Rightarrow> error + image \<times> image" where
  "split_image im =
     (let (w, h) = (width im, height im);
          column_width = w div 2;
          left_bbox = (0, 0, column_width, h);
          right_bbox = (column_width, 0, w, h)
      in case crop im left_bbox of
           Inl e \<Rightarrow> Inl e
         | Inr left \<Rightarrow>
             (case crop im right_bbox of
                Inl e \<Rightarrow> Inl e
              | Inr right \<Rightarrow> Inr (left, right)))"

text \<open>
  A path is the list of its parts; \<open>output_dir / name\<close> appends one part. The file
  system maps a path to the file stored there: an image written by \<open>Image.save\<close>, or
  the bytes written by \<open>write_text\<close>. \<open>Path.write_text(data, encoding="utf-8")\<close> opens
  the file in text mode: each newline of the data is written as the line separator of the
  platform (\<open>os.linesep\<close>), and the result is encoded in UTF-8. Reading in text mode
  (\<open>Path.read_text(encoding="utf-8")\<close>) decodes the bytes and turns every \<open>CR LF\<close> and
  every lone \<open>CR\<close> into a newline.
\<close>

type_synonym path = "string list"

datatype stored = ImageFile image | TextFile "8 word list"

type_synonym fs = "path \<rightharpoonup> stored"

definition utf8_char :: "char \<Rightarrow> 8 word list" where
  "utf8_char c =
     (let n = (of_char c :: nat)
      in if n < 128 then [of_nat n] else [of_nat (192 + n div 64), of_nat (128 + n mod 64)])"

definition utf8_encode :: "string \<Rightarrow> 8 word list" where
  "utf8_encode s = concat (map utf8_char s)"

fun utf8_decode :: "8 word list \<Rightarrow> string option" where
  "utf8_decode [] = Some []"
| "utf8_decode [b] = (if unat b < 128 then Some [char_of (unat b)] else None)"
| "utf8_decode (b # b' # bs) =
     (if unat b < 128
      then (case utf8_decode (b' # bs) of None \<Rightarrow> None | Some s \<Rightarrow> Some (char_of (unat b) # s))
      else if (unat b = 194 \<or> unat b = 195) \<and> 128 \<le> unat b' \<and> unat b' < 192
      then (case utf8_decode bs of
              None \<Rightarrow> None
            | Some s \<Rightarrow> Some (char_of ((unat b - 192) * 64 + (unat b' - 128)) # s))
      else None)"

definition save_image :: "image \<Rightarrow> path \<Rightarrow> fs \<Rightarrow> fs" where
  "save_image im p files = files(p \<mapsto> ImageFile im)"

definition translate_newlines :: "string \<Rightarrow> string \<Rightarrow> string" where
  "translate_newlines sep data =
     concat (map (\<lambda>c. if c = CHR ''\<newline>'' then sep else [c]) data)"

fun universal_newlines :: "string \<Rightarrow> string" where
  "universal_newlines [] = []"
| "universal_newlines [c] = (if c = CHR 0x0D then [CHR ''\<newline>''] else [c])"
| "universal_newlines (c # d # s) =
     (if c = CHR 0x0D
      then (if d = CHR ''\<newline>'' then CHR ''\<newline>'' # universal_newlines s
            else CHR ''\<newline>'' # universal_newlines (d # s))
      else c # universal_newlines (d # s))"

definition write_text :: "string \<Rightarrow> path \<Rightarrow> string \<Rightarrow> fs \<Rightarrow> fs" where
  "write_text sep p data files =
     files(p \<mapsto> TextFile (utf8_encode (translate_newlines sep data)))"

definition read_text :: "path \<Rightarrow> fs \<Rightarrow> string option" where
  "read_text p files =
     (case files p of
        Some (TextFile bs) \<Rightarrow> map_option universal_newlines (utf8_decode bs)
      | _ \<Rightarrow> None)"

text \<open>
  The rasteriser (\<open>pdf2image.convert_from_path\<close>), the recogniser
  (\<open>pytesseract.image_to_string\<close>), the attribute \<open>sys._MEIPASS\<close> and the line
  separator of the platform (\<open>os.linesep\<close>: a newline on POSIX, \<open>CR LF\<close> on Windows)
  are supplied from outside; each of the two engines either returns or raises.
\<close>

record env =
  MEIPASS :: "path option"
  linesep :: string
  convert_from_path :: "path \<Rightarrow> path \<Rightarrow> nat \<Rightarrow> error + image list"
  image_to_string :: "image \<Rightarrow> error + string"

definition extract_text_from_image :: "env \<Rightarrow> image \<Rightarrow> error + string" where
  "extract_text_from_image ev im = image_to_string ev im"

definition digit_char :: "nat \<Rightarrow> char" where
  "digit_char d = char_of (48 + d)"

fun str :: "nat \<Rightarrow> string" where
  "str n = (if n < 10 then [digit_char n] else str (n div 10) @ [digit_char (n mod 10)])"

declare str.simps [simp del]

fun enumerate :: "nat \<Rightarrow> 'a list \<Rightarrow> (nat \<times> 'a) list" where
  "enumerate start [] = []"
| "enumerate start (x # xs) = (start, x) # enumerate (Suc start) xs"

fun pages_loop ::
  "env \<Rightarrow> path \<Rightarrow> (nat \<times> image) list \<Rightarrow> path list \<Rightarrow> string list \<Rightarrow> fs
   \<Rightarrow> (error + path list \<times> string list) \<times> fs" where
  "pages_loop ev output_dir [] image_paths texts files = (Inr (image_paths, texts), files)"
| "pages_loop ev output_dir ((i, im) # rest) image_paths texts files =
     (let full_image_path = output_dir @ [''page_'' @ str i @ ''.png''];
          files = save_image im full_image_path files
      in case split_image im of
           Inl e \<Rightarrow> (Inl e, files)
         | Inr (left, right) \<Rightarrow>
             (let files = save_image left (output_dir @ [''page_'' @ str i @ ''_col1.png'']) files;
                  files = save_image right (output_dir @ [''page_'' @ str i @ ''_col2.png'']) files
              in case extract_text_from_image ev left of
                   Inl e \<Rightarrow> (Inl e, files)
                 | Inr left_text \<Rightarrow>
                     (case extract_text_from_image ev right of
                        Inl e \<Rightarrow> (Inl e, files)
                      | Inr right_text \<Rightarrow>
                          (let combined_text = left_text @ ''\<newline>\<newline>'' @ right_text;
                               files = write_text (linesep ev)
                                         (output_dir @ [''page_'' @ str i @ ''.txt''])
                                         combined_text files
                           in pages_loop ev output_dir rest (image_paths @ [full_image_path])
                                (texts @ [combined_text]) files))))"

definition poppler_path :: "env \<Rightarrow> path" where
  "poppler_path ev =
     (case MEIPASS ev of
        Some p \<Rightarrow> p @ [''poppler'']
      | None \<Rightarrow> [''path'', ''to'', ''your'', ''poppler''])"

definition convert_pdf_to_images ::
  "env \<Rightarrow> path \<Rightarrow> path \<Rightarrow> fs \<Rightarrow> (error + path list \<times> string list) \<times> fs" where
  "convert_pdf_to_images ev pdf_path output_dir files =
     (let dpi_value = 600
      in case convert_from_path ev pdf_path (poppler_path ev) dpi_value of
           Inl e \<Rightarrow> (Inl e, files)
         | Inr images \<Rightarrow> pages_loop ev output_dir (enumerate 1 images) [] [] files)"

text \<open>The four files that the loop writes for page \<open>i\<close>, and what holds of them and of
  the page's text once the page is done.\<close>

definition artifacts :: "path \<Rightarrow> nat \<Rightarrow> path set" where
  "artifacts output_dir i =
     {output_dir @ [''page_'' @ str i @ ''.png''],
      output_dir @ [''page_'' @ str i @ ''_col1.png''],
      output_dir @ [''page_'' @ str i @ ''_col2.png''],
      output_dir @ [''page_'' @ str i @ ''.txt'']}"

definition page_done :: "env \<Rightarrow> path \<Rightarrow> fs \<Rightarrow> nat \<Rightarrow> image \<Rightarrow> string \<Rightarrow> bool" where
  "page_done ev out files i im txt =
     (\<exists>left right left_text right_text.
        split_image im = Inr (left, right) \<and>
        extract_text_from_image ev left = Inr left_text \<and>
        extract_text_from_image ev right = Inr right_text \<and>
        txt = left_text @ ''\<newline>\<newline>'' @ right_text \<and>
        files (out @ [''page_'' @ str i @ ''.png'']) = Some (ImageFile im) \<and>
        files (out @ [''page_'' @ str i @ ''_col1.png'']) = Some (ImageFile left) \<and>
        files (out @ [''page_'' @ str i @ ''_col2.png'']) = Some (ImageFile right) \<and>
        files (out @ [''page_'' @ str i @ ''.txt'']) =
          Some (TextFile (utf8_encode (translate_newlines (linesep ev) txt))))"

subsection \<open>Example inputs\<close>

definition example_page :: image where
  "example_page = \<lparr>width = 5, height = 2, pixel = (\<lambda>(x, y). x + y)\<rparr>"

definition example_env :: env where
  "example_env =
     \<lparr>MEIPASS = None,
      linesep = ''\<newline>'',
      convert_from_path = (\<lambda>pdf poppler dpi. Inr [example_page, example_page]),
      image_to_string = (\<lambda>im. Inr (if width im = 2 then ''ab'' else ''c''))\<rparr>"

definition failing_env :: env where
  "failing_env =
     \<lparr>MEIPASS = None,
      linesep = ''\<newline>'',
      convert_from_path = (\<lambda>pdf poppler dpi. Inl RenderError),
      image_to_string = (\<lambda>im. Inr [])\<rparr>"

definition cr_env :: env where
  "cr_env =
     \<lparr>MEIPASS = None,
      linesep = ''\<newline>'',
      convert_from_path = (\<lambda>pdf poppler dpi. Inr [example_page]),
      image_to_string = (\<lambda>im. Inr [CHR ''a'', CHR 0x0D])\<rparr>"

definition windows_env :: env where
  "windows_env =
     \<lparr>MEIPASS = None,
      linesep = [CHR 0x0D, CHR ''\<newline>''],
      convert_from_path = (\<lambda>pdf poppler dpi. Inr [example_page]),
      image_to_string = (\<lambda>im. Inr ''a'')\<rparr>"

section \<open>The legacy extractors\<close>

text \<open>
  \<open>CVRT3.0.py\<close> and \<open>Patent-anim2.py\<close> carry their own copies of
  \<open>parse_patent_info\<close>, which return the five fields as a tuple. The patterns are
  those of \<open>patent_text_extractor.py\<close>, except that the abstract pattern of
  \<open>CVRT3.0.py\<close> is \<open>Abstract?\<close> where the other two have \<open>Abstract:?\<close>.
\<close>

definition abstract_rx_CVRT3 :: "rx list" where
  "abstract_rx_CVRT3 =
     lit ''Abstrac'' @ [Rep (Ch CHR ''t'') 0 (Some 1) True] @
     [Rep Space 0 None True, GOpen, Rep (Either Space NotSpace) 1 None False, GClose,
      Ahead [lit ''\<newline>\<newline>'', [EndZ]]]"

definition parse_patent_info_CVRT3 :: "string \<Rightarrow> string \<times> string \<times> string \<times> string \<times> string" where
  "parse_patent_info_CVRT3 text =
     (let title = (case re_search title_rx True text of
                     Some mt \<Rightarrow> replace_newline (strip (group1 mt))
                   | None \<Rightarrow> ''Title N/A'');
          title = lstrip_chars '')'' title;
          patent_number = (case re_search number_rx False text of
                             Some mt \<Rightarrow> group0 mt
                           | None \<Rightarrow> ''PATENT # N/A'');
          patent_date = (case re_search date_rx False text of
                           Some mt \<Rightarrow> group1 mt
                         | None \<Rightarrow> ''Date N/A'');
          inventors = (case re_search inventors_rx True text of
                         Some mt \<Rightarrow> replace_newline (strip (group1 mt))
                       | None \<Rightarrow> ''Inventors N/A'');
          abstract = (case re_search abstract_rx_CVRT3 True text of
                        Some mt \<Rightarrow> strip (group1 mt)
                      | None \<Rightarrow> ''Abstract N/A'')
      in (title, patent_number, patent_date, inventors, abstract))"

definition parse_patent_info_Patent_anim2 ::
  "string \<Rightarrow> string \<times> string \<times> string \<times> string \<times> string" where
  "parse_patent_info_Patent_anim2 text =
     (let title = (case re_search title_rx True text of
                     Some mt \<Rightarrow> replace_newline (strip (group1 mt))
                   | None \<Rightarrow> ''Title N/A'');
          title = lstrip_chars '')'' title;
          patent_number = (case re_search number_rx False text of
                             Some mt \<Rightarrow> group0 mt
                           | None \<Rightarrow> ''PATENT # N/A'');
          patent_date = (case re_search date_rx False text of
                           Some mt \<Rightarrow> group1 mt
                         | None \<Rightarrow> ''Date N/A'');
          inventors = (case re_search inventors_rx True text of
                         Some mt \<Rightarrow> replace_newline (strip (group1 mt))
                       | None \<Rightarrow> ''Inventors N/A'');
          abstract = (case re_search abstract_rx True text of
                        Some mt \<Rightarrow> strip (group1 mt)
                      | None \<Rightarrow> ''Abstract N/A'')
      in (title, patent_number, patent_date, inventors, abstract))"

section \<open>The span rules, described directly\<close>

text \<open>
  What the title and inventors rules compute, written without the matcher. A heading is
  compared case-insensitively. After the heading, whitespace is skipped; the capture is the
  next character and the characters after it up to the first place where a numeric section
  marker \<open>(dd)\<close>, two newlines or the end of the text follows. When only whitespace
  follows the heading, the capture is its last character; when nothing follows, the heading
  does not count and the search goes on to the right.
\<close>

fun after_heading :: "string \<Rightarrow> string \<Rightarrow> string option" where
  "after_heading [] s = Some s"
| "after_heading (c # h) [] = None"
| "after_heading (c # h) (x # s) = (if tolower x = tolower c then after_heading h s else None)"

fun at_section_marker :: "string \<Rightarrow> bool" where
  "at_section_marker (a # d1 # d2 # c # s) =
     (a = CHR ''('' \<and> isdecimal d1 \<and> isdecimal d2 \<and> c = CHR '')'')"
| "at_section_marker s = False"

fun blank_line :: "string \<Rightarrow> bool" where
  "blank_line (a # c # s) = (a = CHR ''\<newline>'' \<and> c = CHR ''\<newline>'')"
| "blank_line s = False"

definition section_end :: "string \<Rightarrow> bool" where
  "section_end s = (at_section_marker s \<or> blank_line s \<or> s = [])"

fun until :: "(string \<Rightarrow> bool) \<Rightarrow> string \<Rightarrow> string" where
  "until stop [] = []"
| "until stop (x # xs) = (if stop (x # xs) then [] else x # until stop xs)"

definition span_after :: "(string \<Rightarrow> bool) \<Rightarrow> string \<Rightarrow> string option" where
  "span_after stop s =
     (if s = [] then None
      else if dropWhile isspace s = [] then Some [last s]
      else Some (hd (dropWhile isspace s) # until stop (tl (dropWhile isspace s))))"

fun find_first :: "(string \<Rightarrow> 'a option) \<Rightarrow> string \<Rightarrow> 'a option" where
  "find_first f [] = f []"
| "find_first f (x # xs) = (case f (x # xs) of Some r \<Rightarrow> Some r | None \<Rightarrow> find_first f xs)"

definition title_span :: "string \<Rightarrow> string option" where
  "title_span text =
     find_first (\<lambda>s. case after_heading ''(54)'' s of
                        None \<Rightarrow> None
                      | Some r \<Rightarrow> span_after section_end r) text"

definition inventors_span :: "string \<Rightarrow> string option" where
  "inventors_span text =
     find_first (\<lambda>s. case (case after_heading ''Inventors:'' s of
                              Some r \<Rightarrow> Some r
                            | None \<Rightarrow> after_heading ''Inventor:'' s) of
                        None \<Rightarrow> None
                      | Some r \<Rightarrow> span_after section_end r) text"

definition inventors_heading :: "string \<Rightarrow> string option" where
  "inventors_heading s =
     (case after_heading ''Inventors:'' s of
        Some r \<Rightarrow> Some r
      | None \<Rightarrow> after_heading ''Inventor:'' s)"

fun capture :: "mstate \<Rightarrow> string" where
  "capture (b, s, go, gc) = rev (take (length gc - length go) gc)"

text \<open>
  The reading of the specification's table: the text after the first heading, up to the
  first terminator, with no character required before the terminator.
\<close>

definition stated_title :: "string \<Rightarrow> string" where
  "stated_title text =
     (case find_first (after_heading ''(54)'') text of
        None \<Rightarrow> ''Title N/A''
      | Some r \<Rightarrow> lstrip_chars '')'' (replace_newline (strip (until section_end r))))"

definition stated_inventors :: "string \<Rightarrow> string" where
  "stated_inventors text =
     (case find_first (\<lambda>s. case after_heading ''Inventors:'' s of
                              Some r \<Rightarrow> Some r
                            | None \<Rightarrow> after_heading ''Inventor:'' s) text of
        None \<Rightarrow> ''Inventors N/A''
      | Some r \<Rightarrow> replace_newline (strip (until section_end r)))"

section \<open>Texts that differ in the case of letters\<close>

text \<open>
  A matcher state and a match with every character replaced by its lower-case form.
\<close>

fun low_state :: "mstate \<Rightarrow> mstate" where
  "low_state (b, s, go, gc) = (map tolower b, map tolower s, map tolower go, map tolower gc)"

fun low_match :: "match \<Rightarrow> match" where
  "low_match (b0, st) = (map tolower b0, low_state st)"

section \<open>Decimal page numbers and the text codec\<close>

lemma digit_char_inj: "a < 10 \<Longrightarrow> b < 10 \<Longrightarrow> digit_char a = digit_char b \<Longrightarrow> a = b"
proof -
  assume a: "a < 10" and b: "b < 10" and e: "digit_char a = digit_char b"
  from e have "(of_char (char_of (48 + a)) :: nat) = of_char (char_of (48 + b))"
    by (simp add: digit_char_def)
  with a b show "a = b"
    by (simp add: of_char_of)
qed

lemma digit_char_isdecimal: "d < 10 \<Longrightarrow> isdecimal (digit_char d)"
  by (simp add: digit_char_def isdecimal_def)

lemma str_ne: "str n \<noteq> []"
  by (subst str.simps) simp

lemma str_digits: "c \<in> set (str n) \<Longrightarrow> isdecimal c"
proof (induction n rule: str.induct)
  case (1 n)
  show ?case
  proof (cases "n < 10")
    case True
    with "1.prems" show ?thesis
      by (subst (asm) str.simps) (simp add: digit_char_isdecimal)
  next
    case False
    with "1.prems" have "c \<in> set (str (n div 10)) \<or> c = digit_char (n mod 10)"
      by (subst (asm) str.simps) auto
    with False "1.IH" show ?thesis
      by (auto simp: digit_char_isdecimal)
  qed
qed

lemma str_inj: "str n = str m \<Longrightarrow> n = m"
proof (induction n arbitrary: m rule: str.induct)
  case (1 n)
  show ?case
  proof (cases "n < 10")
    case n: True
    show ?thesis
    proof (cases "m < 10")
      case True
      with n "1.prems" show ?thesis
        by (simp add: str.simps[of n] str.simps[of m] digit_char_inj)
    next
      case False
      with n "1.prems" show ?thesis
        using str_ne[of "m div 10"] by (simp add: str.simps[of n] str.simps[of m])
    qed
  next
    case n: False
    show ?thesis
    proof (cases "m < 10")
      case True
      with n "1.prems" show ?thesis
        using str_ne[of "n div 10"] by (simp add: str.simps[of n] str.simps[of m])
    next
      case False
      with n "1.prems" have "str (n div 10) = str (m div 10)"
        and "digit_char (n mod 10) = digit_char (m mod 10)"
        by (simp_all add: str.simps[of n] str.simps[of m])
      with n "1.IH" have "n div 10 = m div 10" and "n mod 10 = m mod 10"
        by (auto intro: digit_char_inj)
      then show ?thesis
        by (metis div_mult_mod_eq)
    qed
  qed
qed

lemma of_char_less: "(of_char c :: nat) < 256"
  by (rule of_char_of [of "of_char c :: nat", THEN subst]) simp

lemma unat_byte: "n < 256 \<Longrightarrow> unat (of_nat n :: 8 word) = n"
  by (simp add: unat_of_nat)

lemma utf8_decode_ascii:
  "unat b < 128 \<Longrightarrow> utf8_decode (b # bs) = map_option ((#) (char_of (unat b))) (utf8_decode bs)"
  by (cases bs) (simp_all split: option.splits)

lemma utf8_decode_two:
  "unat b = 194 \<or> unat b = 195 \<Longrightarrow> 128 \<le> unat b' \<Longrightarrow> unat b' < 192 \<Longrightarrow>
   utf8_decode (b # b' # bs) =
     map_option ((#) (char_of ((unat b - 192) * 64 + (unat b' - 128)))) (utf8_decode bs)"
  by (auto split: option.splits)

lemma utf8_char_decode: "utf8_decode (utf8_char c @ bs) = map_option ((#) c) (utf8_decode bs)"
proof -
  define n where "n = (of_char c :: nat)"
  have n: "n < 256" unfolding n_def by (rule of_char_less)
  have c: "char_of n = c" unfolding n_def by simp
  show ?thesis
  proof (cases "n < 128")
    case True
    then have "utf8_char c = [of_nat n]"
      by (simp add: utf8_char_def n_def Let_def)
    moreover have "unat (of_nat n :: 8 word) = n"
      using n by (rule unat_byte)
    ultimately show ?thesis
      using True c by (simp add: utf8_decode_ascii)
  next
    case False
    define b :: "8 word" where "b = of_nat (192 + n div 64)"
    define b' :: "8 word" where "b' = of_nat (128 + n mod 64)"
    from False have u: "utf8_char c = [b, b']"
      by (simp add: utf8_char_def n_def b_def b'_def Let_def)
    have d: "n div 64 = 2 \<or> n div 64 = 3"
      using n False by arith
    have b1: "unat b = 192 + n div 64"
      unfolding b_def using d by (intro unat_byte) arith
    have b2: "unat b' = 128 + n mod 64"
      unfolding b'_def by (intro unat_byte) arith
    have "utf8_decode (utf8_char c @ bs) =
            map_option ((#) (char_of (n div 64 * 64 + n mod 64))) (utf8_decode bs)"
      unfolding u using d by (simp add: utf8_decode_two b1 b2 del: utf8_decode.simps)
    then show ?thesis
      using c by simp
  qed
qed

lemma utf8_roundtrip: "utf8_decode (utf8_encode s) = Some s"
  by (induction s) (simp_all add: utf8_encode_def utf8_char_decode)

section \<open>The page loop\<close>

lemma digits_append_eq:
  "xs @ c # a = ys @ d # b \<Longrightarrow> \<forall>x \<in> set xs. isdecimal x \<Longrightarrow> \<forall>y \<in> set ys. isdecimal y \<Longrightarrow>
   \<not> isdecimal c \<Longrightarrow> \<not> isdecimal d \<Longrightarrow> xs = ys \<and> c # a = d # b"
proof (induction xs arbitrary: ys)
  case Nil
  then show ?case by (cases ys) auto
next
  case (Cons x xs)
  then show ?case by (cases ys) auto
qed

lemma page_name_eq:
  assumes "''page_'' @ str i @ c # a = ''page_'' @ str j @ d # b"
    and "\<not> isdecimal c" and "\<not> isdecimal d"
  shows "i = j \<and> c # a = d # b"
proof -
  from assms(1) have "str i @ c # a = str j @ d # b" by simp
  then have "str i = str j \<and> c # a = d # b"
    using assms(2,3) by (intro digits_append_eq) (auto dest: str_digits)
  then show ?thesis by (auto dest: str_inj)
qed

lemma artifacts_image:
  "artifacts out i =
     (\<lambda>s. out @ [''page_'' @ str i @ s]) ` {''.png'', ''_col1.png'', ''_col2.png'', ''.txt''}"
  by (simp add: artifacts_def insert_commute)

lemma not_decimal_dot: "\<not> isdecimal CHR ''.''"
  by (simp add: isdecimal_def)

lemma not_decimal_underscore: "\<not> isdecimal CHR ''_''"
  by (simp add: isdecimal_def)

lemma suffix_starts:
  assumes "s \<in> {''.png'', ''_col1.png'', ''_col2.png'', ''.txt''}"
  shows "\<exists>c a. s = c # a \<and> \<not> isdecimal c"
proof -
  from assms consider "s = ''.png''" | "s = ''_col1.png''" | "s = ''_col2.png''" | "s = ''.txt''"
    by (elim insertE emptyE)
  then show ?thesis
  proof cases
    case 1
    then show ?thesis using not_decimal_dot by (intro exI[of _ "CHR ''.''"] exI[of _ "''png''"]) simp
  next
    case 2
    then show ?thesis
      using not_decimal_underscore by (intro exI[of _ "CHR ''_''"] exI[of _ "''col1.png''"]) simp
  next
    case 3
    then show ?thesis
      using not_decimal_underscore by (intro exI[of _ "CHR ''_''"] exI[of _ "''col2.png''"]) simp
  next
    case 4
    then show ?thesis using not_decimal_dot by (intro exI[of _ "CHR ''.''"] exI[of _ "''txt''"]) simp
  qed
qed

lemma artifact_name_inj:
  assumes "out @ [''page_'' @ str i @ s] = out @ [''page_'' @ str j @ s']"
    and "s \<in> {''.png'', ''_col1.png'', ''_col2.png'', ''.txt''}"
    and "s' \<in> {''.png'', ''_col1.png'', ''_col2.png'', ''.txt''}"
  shows "i = j \<and> s = s'"
proof -
  from suffix_starts[OF assms(2)] obtain c a where s: "s = c # a" "\<not> isdecimal c" by blast
  from suffix_starts[OF assms(3)] obtain d b where s': "s' = d # b" "\<not> isdecimal d" by blast
  from assms(1) have "''page_'' @ str i @ c # a = ''page_'' @ str j @ d # b"
    unfolding s s' by (simp only: append_same_eq list.inject append_Cons append_Nil) simp
  from page_name_eq[OF this s(2) s'(2)] show ?thesis
    unfolding s s' .
qed

lemma artifacts_disjoint:
  assumes "i \<noteq> j" and "p \<in> artifacts out i"
  shows "p \<notin> artifacts out j"
proof
  assume "p \<in> artifacts out j"
  then obtain s' where s': "p = out @ [''page_'' @ str j @ s']"
    "s' \<in> {''.png'', ''_col1.png'', ''_col2.png'', ''.txt''}"
    unfolding artifacts_image by (rule imageE)
  from assms(2) obtain s where s: "p = out @ [''page_'' @ str i @ s]"
    "s \<in> {''.png'', ''_col1.png'', ''_col2.png'', ''.txt''}"
    unfolding artifacts_image by (rule imageE)
  from s(1) s'(1) have "out @ [''page_'' @ str i @ s] = out @ [''page_'' @ str j @ s']"
    by (rule subst)
  from artifact_name_inj[OF this s(2) s'(2)] assms(1) show False
    by (elim conjE notE)
qed

lemma pages_loop_frame:
  "pages_loop ev out (enumerate k images) ps ts files = (r, files') \<Longrightarrow>
   \<forall>i\<ge>k. p \<notin> artifacts out i \<Longrightarrow> files' p = files p"
proof (induction images arbitrary: k ps ts files)
  case Nil
  then show ?case by simp
next
  case (Cons im images)
  have "p \<notin> artifacts out k" using Cons.prems(2) by simp
  then have ne: "p \<noteq> out @ [''page_'' @ str k @ ''.png'']"
    "p \<noteq> out @ [''page_'' @ str k @ ''_col1.png'']"
    "p \<noteq> out @ [''page_'' @ str k @ ''_col2.png'']"
    "p \<noteq> out @ [''page_'' @ str k @ ''.txt'']"
    unfolding artifacts_def by blast+
  have later: "\<forall>i\<ge>Suc k. p \<notin> artifacts out i" using Cons.prems(2) by simp
  define f1 where "f1 = save_image im (out @ [''page_'' @ str k @ ''.png'']) files"
  have f1: "f1 p = files p"
    unfolding f1_def save_image_def using ne by (simp only: fun_upd_apply if_False)
  note run = Cons.prems(1)[unfolded enumerate.simps pages_loop.simps Let_def, folded f1_def]
  show ?case
  proof (cases "split_image im")
    case (Inl e)
    with run f1 show ?thesis by simp
  next
    case (Inr lr)
    obtain left right where lr: "lr = (left, right)" by (cases lr)
    define f3 where "f3 = save_image right (out @ [''page_'' @ str k @ ''_col2.png''])
      (save_image left (out @ [''page_'' @ str k @ ''_col1.png'']) f1)"
    have f3: "f3 p = files p"
      unfolding f3_def save_image_def using ne f1 by (simp only: fun_upd_apply if_False)
    note run3 = run[unfolded Inr lr sum.case prod.case, folded f3_def]
    show ?thesis
    proof (cases "extract_text_from_image ev left")
      case (Inl e)
      with run3 f3 show ?thesis by simp
    next
      case lt: (Inr left_text)
      show ?thesis
      proof (cases "extract_text_from_image ev right")
        case (Inl e)
        with run3 lt f3 show ?thesis by simp
      next
        case rt: (Inr right_text)
        define f4 where "f4 = write_text (linesep ev) (out @ [''page_'' @ str k @ ''.txt''])
          (left_text @ ''\<newline>\<newline>'' @ right_text) f3"
        have f4: "f4 p = files p"
          unfolding f4_def write_text_def using ne f3 by (simp only: fun_upd_apply if_False)
        from run3 have "pages_loop ev out (enumerate (Suc k) images)
            (ps @ [out @ [''page_'' @ str k @ ''.png'']])
            (ts @ [left_text @ ''\<newline>\<newline>'' @ right_text]) f4 = (r, files')"
          unfolding lt rt sum.case f4_def .
        from Cons.IH[OF this later] f4 show ?thesis by simp
      qed
    qed
  qed
qed

lemma pages_loop_step:
  assumes "pages_loop ev out ((i, im) # rest) ps ts files = (Inr res, files')"
  obtains left right lt rt where
    "split_image im = Inr (left, right)"
    "extract_text_from_image ev left = Inr lt"
    "extract_text_from_image ev right = Inr rt"
    "pages_loop ev out rest (ps @ [out @ [''page_'' @ str i @ ''.png'']])
       (ts @ [lt @ ''\<newline>\<newline>'' @ rt])
       (write_text (linesep ev) (out @ [''page_'' @ str i @ ''.txt'']) (lt @ ''\<newline>\<newline>'' @ rt)
         (save_image right (out @ [''page_'' @ str i @ ''_col2.png''])
           (save_image left (out @ [''page_'' @ str i @ ''_col1.png''])
             (save_image im (out @ [''page_'' @ str i @ ''.png'']) files))))
     = (Inr res, files')"
  using assms by (auto simp: Let_def split: sum.splits prod.splits)

lemma same_page_distinct:
  "s \<in> {''.png'', ''_col1.png'', ''_col2.png'', ''.txt''} \<Longrightarrow>
   s' \<in> {''.png'', ''_col1.png'', ''_col2.png'', ''.txt''} \<Longrightarrow> s \<noteq> s' \<Longrightarrow>
   out @ [''page_'' @ str i @ s] \<noteq> out @ [''page_'' @ str i @ s']"
  using artifact_name_inj by blast

lemma first_page_written:
  assumes files1_def: "files1 =
     write_text sep (out @ [''page_'' @ str i @ ''.txt'']) data
       (save_image right (out @ [''page_'' @ str i @ ''_col2.png''])
         (save_image left (out @ [''page_'' @ str i @ ''_col1.png''])
           (save_image im (out @ [''page_'' @ str i @ ''.png'']) files)))"
  shows "files1 (out @ [''page_'' @ str i @ ''.png'']) = Some (ImageFile im)"
    and "files1 (out @ [''page_'' @ str i @ ''_col1.png'']) = Some (ImageFile left)"
    and "files1 (out @ [''page_'' @ str i @ ''_col2.png'']) = Some (ImageFile right)"
    and "files1 (out @ [''page_'' @ str i @ ''.txt'']) =
           Some (TextFile (utf8_encode (translate_newlines sep data)))"
proof -
  have d: "out @ [''page_'' @ str i @ ''.png''] \<noteq> out @ [''page_'' @ str i @ ''_col1.png'']"
    "out @ [''page_'' @ str i @ ''.png''] \<noteq> out @ [''page_'' @ str i @ ''_col2.png'']"
    "out @ [''page_'' @ str i @ ''.png''] \<noteq> out @ [''page_'' @ str i @ ''.txt'']"
    "out @ [''page_'' @ str i @ ''_col1.png''] \<noteq> out @ [''page_'' @ str i @ ''_col2.png'']"
    "out @ [''page_'' @ str i @ ''_col1.png''] \<noteq> out @ [''page_'' @ str i @ ''.txt'']"
    "out @ [''page_'' @ str i @ ''_col2.png''] \<noteq> out @ [''page_'' @ str i @ ''.txt'']"
    by (rule same_page_distinct; simp)+
  show "files1 (out @ [''page_'' @ str i @ ''.png'']) = Some (ImageFile im)"
    and "files1 (out @ [''page_'' @ str i @ ''_col1.png'']) = Some (ImageFile left)"
    and "files1 (out @ [''page_'' @ str i @ ''_col2.png'']) = Some (ImageFile right)"
    and "files1 (out @ [''page_'' @ str i @ ''.txt'']) =
           Some (TextFile (utf8_encode (translate_newlines sep data)))"
    unfolding files1_def write_text_def save_image_def fun_upd_apply
    using d by (simp_all only: if_True if_False refl simp_thms)
qed

lemma pages_loop_paths:
  "pages_loop ev out (enumerate k images) ps ts files = (Inr (ps', ts'), files') \<Longrightarrow>
   ps' = ps @ map (\<lambda>i. out @ [''page_'' @ str i @ ''.png'']) [k..<k + length images]"
proof (induction images arbitrary: k ps ts files)
  case Nil
  then show ?case by simp
next
  case (Cons im images)
  from Cons.prems obtain left right lt rt where
    "pages_loop ev out (enumerate (Suc k) images) (ps @ [out @ [''page_'' @ str k @ ''.png'']])
       (ts @ [lt @ ''\<newline>\<newline>'' @ rt])
       (write_text (linesep ev) (out @ [''page_'' @ str k @ ''.txt'']) (lt @ ''\<newline>\<newline>'' @ rt)
         (save_image right (out @ [''page_'' @ str k @ ''_col2.png''])
           (save_image left (out @ [''page_'' @ str k @ ''_col1.png''])
             (save_image im (out @ [''page_'' @ str k @ ''.png'']) files))))
     = (Inr (ps', ts'), files')"
    unfolding enumerate.simps by (rule pages_loop_step)
  from Cons.IH[OF this] show ?case
    by (simp add: upt_conv_Cons del: upt_Suc)
qed

lemma pages_loop_pages:
  "pages_loop ev out (enumerate k images) ps ts files = (Inr (ps', ts'), files') \<Longrightarrow>
   \<exists>new. ts' = ts @ new \<and> length new = length images \<and>
     (\<forall>j<length images. page_done ev out files' (k + j) (images ! j) (new ! j))"
proof (induction images arbitrary: k ps ts files)
  case Nil
  then show ?case by simp
next
  case (Cons im images)
  define png where "png = out @ [''page_'' @ str k @ ''.png'']"
  define col1 where "col1 = out @ [''page_'' @ str k @ ''_col1.png'']"
  define col2 where "col2 = out @ [''page_'' @ str k @ ''_col2.png'']"
  define tpath where "tpath = out @ [''page_'' @ str k @ ''.txt'']"
  from Cons.prems obtain left right lt rt where
    sp: "split_image im = Inr (left, right)"
    and l: "extract_text_from_image ev left = Inr lt"
    and r: "extract_text_from_image ev right = Inr rt"
    and rec: "pages_loop ev out (enumerate (Suc k) images) (ps @ [png])
       (ts @ [lt @ ''\<newline>\<newline>'' @ rt])
       (write_text (linesep ev) tpath (lt @ ''\<newline>\<newline>'' @ rt)
         (save_image right col2 (save_image left col1 (save_image im png files))))
     = (Inr (ps', ts'), files')"
    unfolding enumerate.simps png_def col1_def col2_def tpath_def by (rule pages_loop_step)
  define files1 where "files1 =
     write_text (linesep ev) tpath (lt @ ''\<newline>\<newline>'' @ rt)
       (save_image right col2 (save_image left col1 (save_image im png files)))"
  from Cons.IH[OF rec] obtain new where
    new: "ts' = (ts @ [lt @ ''\<newline>\<newline>'' @ rt]) @ new" "length new = length images"
    and rest: "\<forall>j<length images. page_done ev out files' (Suc k + j) (images ! j) (new ! j)"
    by blast
  have keep: "files' p = files1 p" if "p \<in> artifacts out k" for p
  proof (rule pages_loop_frame[OF rec[folded files1_def]])
    show "\<forall>i\<ge>Suc k. p \<notin> artifacts out i"
      using that artifacts_disjoint[of k _ p out] by auto
  qed
  have mem: "png \<in> artifacts out k" "col1 \<in> artifacts out k" "col2 \<in> artifacts out k"
    "tpath \<in> artifacts out k"
    by (simp_all add: artifacts_def png_def col1_def col2_def tpath_def)
  have first: "page_done ev out files' k im (lt @ ''\<newline>\<newline>'' @ rt)"
    unfolding page_done_def
    using sp l r keep[OF mem(1)] keep[OF mem(2)] keep[OF mem(3)] keep[OF mem(4)]
      first_page_written[OF refl, where out = out and i = k and sep = "linesep ev"
        and data = "lt @ ''\<newline>\<newline>'' @ rt" and right = right and left = left and im = im
        and files = files]
    unfolding files1_def png_def col1_def col2_def tpath_def
    by (intro exI[of _ left] exI[of _ right] exI[of _ lt] exI[of _ rt]) simp
  have "\<forall>j<length (im # images).
          page_done ev out files' (k + j) ((im # images) ! j) (((lt @ ''\<newline>\<newline>'' @ rt) # new) ! j)"
  proof (intro allI impI)
    fix j assume "j < length (im # images)"
    then show "page_done ev out files' (k + j) ((im # images) ! j)
                 (((lt @ ''\<newline>\<newline>'' @ rt) # new) ! j)"
      using first rest by (cases j) simp_all
  qed
  with new show ?case
    by (intro exI[of _ "(lt @ ''\<newline>\<newline>'' @ rt) # new"]) simp
qed

section \<open>Claims about the pipeline\<close>

lemma convert_success:
  assumes "convert_from_path ev pdf (poppler_path ev) 600 = Inr images"
    and "convert_pdf_to_images ev pdf out files = (Inr (image_paths, texts), files')"
  shows "pages_loop ev out (enumerate 1 images) [] [] files = (Inr (image_paths, texts), files')"
  using assms by (simp add: convert_pdf_to_images_def)

lemma str_1: "str 1 = ''1''"
  by code_simp

lemma str_2: "str 2 = ''2''"
  by code_simp

lemma str_Suc_0: "str (Suc 0) = ''1''"
  using str_1 by simp

lemma str_Suc_Suc_0: "str (Suc (Suc 0)) = ''2''"
  using str_2 by (simp add: numeral_2_eq_2)

lemma example_run:
  "fst (convert_pdf_to_images example_env [''patent.pdf''] [''images''] Map.empty) =
     Inr ([[''images'', ''page_1.png''], [''images'', ''page_2.png'']],
          [''ab\<newline>\<newline>c'', ''ab\<newline>\<newline>c''])"
  by (simp add: convert_pdf_to_images_def example_env_def example_page_def split_image_def
      crop_def extract_text_from_image_def Let_def str_Suc_0 str_Suc_Suc_0)

text \<open>
  Claim C1. When the rasteriser returns \<open>N\<close> pages and the run succeeds, it returns
  exactly \<open>N\<close> image paths and \<open>N\<close> texts; the path at position \<open>i\<close> (counted
  from 1) is \<open>output_dir / page_{i}.png\<close>, and the file stored there is page \<open>i\<close> of the
  document, so the results follow the page order of the source.
\<close>

theorem convert_pdf_to_images_page_order:
  assumes "convert_from_path ev pdf (poppler_path ev) 600 = Inr images"
    and "convert_pdf_to_images ev pdf out files = (Inr (image_paths, texts), files')"
  shows "length image_paths = length images \<and> length texts = length images \<and>
         (\<forall>i<length images.
            image_paths ! i = out @ [''page_'' @ str (i + 1) @ ''.png''] \<and>
            files' (image_paths ! i) = Some (ImageFile (images ! i)))"
proof -
  note run = convert_success[OF assms]
  from pages_loop_paths[OF run]
  have ps: "image_paths = map (\<lambda>i. out @ [''page_'' @ str i @ ''.png'']) [1..<1 + length images]"
    by simp
  from pages_loop_pages[OF run] obtain new where
    new: "texts = new" "length new = length images"
    and pages: "\<forall>j<length images. page_done ev out files' (1 + j) (images ! j) (new ! j)"
    by auto
  have "image_paths ! i = out @ [''page_'' @ str (i + 1) @ ''.png''] \<and>
        files' (image_paths ! i) = Some (ImageFile (images ! i))" if "i < length images" for i
  proof -
    from that have p: "image_paths ! i = out @ [''page_'' @ str (i + 1) @ ''.png'']"
      unfolding ps by (simp del: upt_Suc)
    from pages that have "page_done ev out files' (1 + i) (images ! i) (new ! i)"
      by blast
    then have "files' (out @ [''page_'' @ str (i + 1) @ ''.png'']) = Some (ImageFile (images ! i))"
      by (auto simp: page_done_def)
    with p show ?thesis by simp
  qed
  moreover have "length image_paths = length images"
    unfolding ps by (simp del: upt_Suc)
  ultimately show ?thesis
    using new by blast
qed

theorem convert_pdf_to_images_page_order_witness:
  "convert_from_path example_env [''patent.pdf''] (poppler_path example_env) 600 =
     Inr [example_page, example_page] \<and>
   (\<exists>files'.
      convert_pdf_to_images example_env [''patent.pdf''] [''images''] Map.empty =
        (Inr ([[''images'', ''page_1.png''], [''images'', ''page_2.png'']],
              [''ab\<newline>\<newline>c'', ''ab\<newline>\<newline>c'']), files') \<and>
      files' [''images'', ''page_2.png''] = Some (ImageFile example_page))"
proof -
  have h1: "convert_from_path example_env [''patent.pdf''] (poppler_path example_env) 600 =
              Inr [example_page, example_page]"
    by (simp add: example_env_def)
  have h2: "convert_pdf_to_images example_env [''patent.pdf''] [''images''] Map.empty =
        (Inr ([[''images'', ''page_1.png''], [''images'', ''page_2.png'']],
              [''ab\<newline>\<newline>c'', ''ab\<newline>\<newline>c'']),
         snd (convert_pdf_to_images example_env [''patent.pdf''] [''images''] Map.empty))"
    using example_run by (simp add: prod_eq_iff)
  from convert_pdf_to_images_page_order[OF h1 h2, THEN conjunct2, THEN conjunct2, THEN spec, of 1]
  have "snd (convert_pdf_to_images example_env [''patent.pdf''] [''images''] Map.empty)
          ([[''images'', ''page_1.png''], [''images'', ''page_2.png'']] ! 1) =
        Some (ImageFile ([example_page, example_page] ! 1))"
    by simp
  with h1 h2 show ?thesis by auto
qed

text \<open>
  Claim C8. When the rasteriser fails, the run returns that failure and no page list, and
  the file system is the one it started with: nothing was written.
\<close>

theorem render_failure_writes_nothing:
  assumes "convert_from_path ev pdf (poppler_path ev) 600 = Inl e"
  shows "convert_pdf_to_images ev pdf out files = (Inl e, files)"
  using assms by (simp add: convert_pdf_to_images_def)

theorem render_failure_writes_nothing_witness:
  "convert_from_path failing_env [''patent.pdf''] (poppler_path failing_env) 600 = Inl RenderError \<and>
   convert_pdf_to_images failing_env [''patent.pdf''] [''images''] Map.empty =
     (Inl RenderError, Map.empty)"
proof -
  have h: "convert_from_path failing_env [''patent.pdf''] (poppler_path failing_env) 600 =
             Inl RenderError"
    by (simp add: failing_env_def)
  from h render_failure_writes_nothing[OF h] show ?thesis by simp
qed

text \<open>
  Claim C6. \<open>split_image\<close> never fails. The left crop has width \<open>width div 2\<close>, the right
  crop the remaining width, both have the full height, the two widths add up to the full
  width, and the crops hold the pixels of the left and right region. An image of width 0
  gives two crops of width 0.
\<close>

theorem split_image_halves:
  "(\<exists>left right.
      split_image im = Inr (left, right) \<and>
      width left = width im div 2 \<and> width right = width im - width im div 2 \<and>
      height left = height im \<and> height right = height im \<and>
      width left + width right = width im \<and>
      (\<forall>x y. pixel left (x, y) = pixel im (x, y)) \<and>
      (\<forall>x y. pixel right (x, y) = pixel im (x + width im div 2, y))) \<and>
   (\<forall>h px. \<exists>left right.
      split_image \<lparr>width = 0, height = h, pixel = px\<rparr> = Inr (left, right) \<and>
      width left = 0 \<and> width right = 0)"
  by (simp add: split_image_def crop_def Let_def)

section \<open>Post-processing of the captured spans\<close>

lemma isspace_newline: "isspace CHR ''\<newline>''"
  by (simp add: isspace_def)

lemma isspace_blank: "isspace CHR '' ''"
  by (simp add: isspace_def)

lemma lstrip_idem: "lstrip (lstrip s) = lstrip s"
  unfolding lstrip_def by (induction s) simp_all

lemma lstrip_hd: "lstrip s = x # xs \<Longrightarrow> \<not> isspace x"
  unfolding lstrip_def using hd_dropWhile[of isspace s] by auto

lemma rstrip_snoc: "rstrip (s @ [x]) = (if isspace x then rstrip s else s @ [x])"
  by (simp add: rstrip_def)

lemma lstrip_rstrip_commute: "lstrip (rstrip s) = rstrip (lstrip s)"
proof (induction s rule: rev_induct)
  case Nil
  show ?case by (simp add: lstrip_def rstrip_def)
next
  case (snoc x s)
  show ?case
  proof (cases "isspace x")
    case True
    have "lstrip (s @ [x]) = (if lstrip s = [] then [] else lstrip s @ [x])"
      unfolding lstrip_def using True by (induction s) simp_all
    moreover have "rstrip [] = []"
      by (simp add: rstrip_def)
    ultimately show ?thesis
      using True snoc by (simp add: rstrip_snoc)
  next
    case False
    have l: "lstrip (s @ [x]) = lstrip s @ [x]"
      unfolding lstrip_def using False by (induction s) simp_all
    from False show ?thesis
      by (simp add: rstrip_snoc l)
  qed
qed

lemma rstrip_idem: "rstrip (rstrip s) = rstrip s"
  by (simp add: rstrip_def)

lemma strip_idem: "strip (strip s) = strip s"
  by (simp add: strip_def lstrip_rstrip_commute[symmetric] rstrip_idem lstrip_idem)

lemma isspace_replaced:
  "isspace (if c = CHR ''\<newline>'' then CHR '' '' else c) = isspace c"
  using isspace_newline isspace_blank by simp

lemma lstrip_replace_newline: "lstrip (replace_newline s) = replace_newline (lstrip s)"
proof (induction s)
  case Nil
  show ?case by (simp add: lstrip_def replace_newline_def)
next
  case (Cons c s)
  have "isspace (if c = CHR ''\<newline>'' then CHR '' '' else c) = isspace c"
    by (rule isspace_replaced)
  with Cons show ?case
    unfolding lstrip_def replace_newline_def by (cases "isspace c") simp_all
qed

lemma rstrip_replace_newline: "rstrip (replace_newline s) = replace_newline (rstrip s)"
proof -
  have "dropWhile isspace (rev (replace_newline s)) = replace_newline (dropWhile isspace (rev s))"
    using lstrip_replace_newline[of "rev s"]
    by (simp add: lstrip_def replace_newline_def rev_map)
  then show ?thesis
    by (simp add: rstrip_def replace_newline_def rev_map)
qed

lemma strip_replace_newline: "strip (replace_newline s) = replace_newline (strip s)"
  by (simp add: strip_def lstrip_replace_newline rstrip_replace_newline)

lemma replace_newline_free: "CHR ''\<newline>'' \<notin> set (replace_newline s)"
  by (induction s) (simp_all add: replace_newline_def)

lemma lstrip_chars_subset: "set (lstrip_chars cs s) \<subseteq> set s"
  unfolding lstrip_chars_def by (rule set_dropWhileD[THEN subsetI])

lemma lstrip_chars_paren: "\<not> prefix '')'' (lstrip_chars '')'' s)"
proof (cases "dropWhile (\<lambda>c. c \<in> set '')'') s")
  case Nil
  have "lstrip_chars '')'' s = []"
    unfolding lstrip_chars_def by (rule Nil)
  then show ?thesis by simp
next
  case (Cons x xs)
  then have "dropWhile (\<lambda>c. c \<in> set '')'') s \<noteq> []"
    by simp
  from hd_dropWhile[OF this] have "x \<noteq> CHR '')''"
    unfolding Cons by simp
  with Cons show ?thesis by (simp add: lstrip_chars_def)
qed

text \<open>
  Claim C2, as the code has it. When its rule matches, the title is the capture stripped of
  surrounding whitespace, each newline replaced by a space, and then every leading \<open>)\<close>
  removed; it holds no newline and does not start with \<open>)\<close>. The inventors field is the
  capture stripped and each newline replaced by a space; it holds no newline and has no
  whitespace at either end. The abstract is the capture stripped only: it has no whitespace
  at either end, and its newlines stay.
\<close>

theorem span_fields_post_processing:
  "(title_match text = Some mt \<longrightarrow>
      title (parse_patent_info text) = lstrip_chars '')'' (replace_newline (strip (group1 mt))) \<and>
      CHR ''\<newline>'' \<notin> set (title (parse_patent_info text)) \<and>
      \<not> prefix '')'' (title (parse_patent_info text))) \<and>
   (inventors_match text = Some mi \<longrightarrow>
      inventors (parse_patent_info text) = replace_newline (strip (group1 mi)) \<and>
      CHR ''\<newline>'' \<notin> set (inventors (parse_patent_info text)) \<and>
      strip (inventors (parse_patent_info text)) = inventors (parse_patent_info text)) \<and>
   (abstract_match text = Some ma \<longrightarrow>
      abstract (parse_patent_info text) = strip (group1 ma) \<and>
      strip (abstract (parse_patent_info text)) = abstract (parse_patent_info text))"
proof (intro conjI impI)
  assume m: "title_match text = Some mt"
  then show t: "title (parse_patent_info text) =
      lstrip_chars '')'' (replace_newline (strip (group1 mt)))"
    by (simp add: parse_patent_info_def Let_def)
  show "CHR ''\<newline>'' \<notin> set (title (parse_patent_info text))"
    unfolding t using lstrip_chars_subset replace_newline_free by blast
  show "\<not> prefix '')'' (title (parse_patent_info text))"
    unfolding t by (rule lstrip_chars_paren)
next
  assume m: "inventors_match text = Some mi"
  then show t: "inventors (parse_patent_info text) = replace_newline (strip (group1 mi))"
    by (simp add: parse_patent_info_def Let_def)
  show "CHR ''\<newline>'' \<notin> set (inventors (parse_patent_info text))"
    unfolding t by (rule replace_newline_free)
  show "strip (inventors (parse_patent_info text)) = inventors (parse_patent_info text)"
    unfolding t by (simp add: strip_replace_newline strip_idem)
next
  assume m: "abstract_match text = Some ma"
  then show t: "abstract (parse_patent_info text) = strip (group1 ma)"
    by (simp add: parse_patent_info_def Let_def)
  show "strip (abstract (parse_patent_info text)) = abstract (parse_patent_info text)"
    unfolding t by (rule strip_idem)
qed

theorem span_fields_post_processing_witness:
  "title_match ''(54) A\<newline>B\<newline>\<newline>Inventors: C\<newline>D\<newline>\<newline>Abstract: E\<newline>F'' \<noteq> None \<and>
   inventors_match ''(54) A\<newline>B\<newline>\<newline>Inventors: C\<newline>D\<newline>\<newline>Abstract: E\<newline>F'' \<noteq> None \<and>
   abstract_match ''(54) A\<newline>B\<newline>\<newline>Inventors: C\<newline>D\<newline>\<newline>Abstract: E\<newline>F'' \<noteq> None \<and>
   CHR ''\<newline>'' \<notin> set (title (parse_patent_info
     ''(54) A\<newline>B\<newline>\<newline>Inventors: C\<newline>D\<newline>\<newline>Abstract: E\<newline>F'')) \<and>
   CHR ''\<newline>'' \<notin> set (inventors (parse_patent_info
     ''(54) A\<newline>B\<newline>\<newline>Inventors: C\<newline>D\<newline>\<newline>Abstract: E\<newline>F'')) \<and>
   strip (abstract (parse_patent_info
     ''(54) A\<newline>B\<newline>\<newline>Inventors: C\<newline>D\<newline>\<newline>Abstract: E\<newline>F'')) =
   abstract (parse_patent_info
     ''(54) A\<newline>B\<newline>\<newline>Inventors: C\<newline>D\<newline>\<newline>Abstract: E\<newline>F'')"
proof -
  define T where "T = ''(54) A\<newline>B\<newline>\<newline>Inventors: C\<newline>D\<newline>\<newline>Abstract: E\<newline>F''"
  have "title_match T \<noteq> None" unfolding T_def by code_simp
  then obtain mt where mt: "title_match T = Some mt" by blast
  have "inventors_match T \<noteq> None" unfolding T_def by code_simp
  then obtain mi where mi: "inventors_match T = Some mi" by blast
  have "abstract_match T \<noteq> None" unfolding T_def by code_simp
  then obtain ma where ma: "abstract_match T = Some ma" by blast
  from span_fields_post_processing[of T mt mi ma] mt mi ma
  have "title_match T \<noteq> None \<and> inventors_match T \<noteq> None \<and> abstract_match T \<noteq> None \<and>
    CHR ''\<newline>'' \<notin> set (title (parse_patent_info T)) \<and>
    CHR ''\<newline>'' \<notin> set (inventors (parse_patent_info T)) \<and>
    strip (abstract (parse_patent_info T)) = abstract (parse_patent_info T)"
    by blast
  then show ?thesis unfolding T_def .
qed

text \<open>
  The claim as the specification states it, that every span-captured field has its
  newlines turned into spaces, fails for the abstract: its rule matches here, and the
  returned abstract still holds the newline.
\<close>

theorem abstract_keeps_newlines:
  "map_option group1 (abstract_match ''Abstract: a\<newline>b'') = Some ''a\<newline>b'' \<and>
   abstract (parse_patent_info ''Abstract: a\<newline>b'') = ''a\<newline>b'' \<and>
   abstract (parse_patent_info ''Abstract: a\<newline>b'') \<noteq>
     replace_newline (strip ''a\<newline>b'')"
  by code_simp

section \<open>The legacy copies of the extractor\<close>

lemma Patent_anim2_same_fields:
  "parse_patent_info_Patent_anim2 text =
     (let p = parse_patent_info text in (title p, number p, date p, inventors p, abstract p))"
  by (simp add: parse_patent_info_Patent_anim2_def parse_patent_info_def Let_def title_match_def
      number_match_def date_match_def inventors_match_def abstract_match_def)

text \<open>
  Claim C9. On the text \<open>Abstract: foo\<close> the extractor of \<open>CVRT3.0.py\<close> returns the
  abstract \<open>: foo\<close>, where \<open>patent_text_extractor.py\<close> returns \<open>foo\<close>: the pattern
  \<open>Abstract?\<close> makes the letter t optional and leaves the colon to the capture.
\<close>

theorem CVRT3_abstract_differs:
  "parse_patent_info_CVRT3 ''Abstract: foo'' =
     (''Title N/A'', ''PATENT # N/A'', ''Date N/A'', ''Inventors N/A'', '': foo'') \<and>
   abstract (parse_patent_info ''Abstract: foo'') = ''foo''"
  by code_simp

section \<open>Case-insensitive literals\<close>

lemma of_char_tolower:
  "(of_char (tolower x) :: nat) =
     (if (65 \<le> (of_char x :: nat) \<and> (of_char x :: nat) \<le> 90) \<or>
         (192 \<le> (of_char x :: nat) \<and> (of_char x :: nat) \<le> 222 \<and> (of_char x :: nat) \<noteq> 215)
      then of_char x + 32 else of_char x)"
proof -
  have "(of_char x :: nat) < 256" by (rule of_char_less)
  then show ?thesis
    by (simp add: tolower_def Let_def of_char_of)
qed

lemma ci_caseless:
  assumes "(of_char c :: nat) < 65 \<or> (122 < (of_char c :: nat) \<and> (of_char c :: nat) < 192)"
  shows "(tolower x = tolower c) = (x = c)"
proof -
  have "(tolower x = tolower c) = ((of_char (tolower x) :: nat) = of_char (tolower c))"
    by simp
  also have "\<dots> = ((of_char x :: nat) = of_char c)"
    unfolding of_char_tolower using assms by auto
  also have "\<dots> = (x = c)"
    by simp
  finally show ?thesis .
qed

lemma in_cset_caseless:
  assumes "(of_char c :: nat) < 65 \<or> (122 < (of_char c :: nat) \<and> (of_char c :: nat) < 192)"
  shows "in_cset ic (Ch c) x = (x = c)"
  using ci_caseless[OF assms] by simp

lemma in_cset_open [simp]: "in_cset ic (Ch CHR ''('') x = (x = CHR ''('')"
  by (rule in_cset_caseless) simp

lemma in_cset_close [simp]: "in_cset ic (Ch CHR '')'') x = (x = CHR '')'')"
  by (rule in_cset_caseless) simp

lemma in_cset_newline [simp]: "in_cset ic (Ch CHR ''\<newline>'') x = (x = CHR ''\<newline>'')"
  by (rule in_cset_caseless) simp

lemma in_cset_colon [simp]: "in_cset ic (Ch CHR '':'') x = (x = CHR '':'')"
  by (rule in_cset_caseless) simp

lemma in_cset_any [simp]: "in_cset ic (Either Space NotSpace) x"
  by simp

lemma in_cset_ci: "in_cset True (Ch c) x = (tolower x = tolower c)"
  by simp

lemma in_cset_cs: "in_cset False (Ch c) x = (x = c)"
  by simp

declare in_cset.simps(1) [simp del]

section \<open>The matcher on the span patterns\<close>

lemma group1_capture: "group1 (b0, st) = capture st"
  by (cases st) simp

lemma match_lit:
  "match_here True (lit h @ R) (b, s, go, gc) =
     (case after_heading h s of
        None \<Rightarrow> None
      | Some r \<Rightarrow> match_here True R (rev (take (length h) s) @ b, r, go, gc))"
proof (induction h arbitrary: b s)
  case Nil
  show ?case by (simp add: lit_def)
next
  case (Cons c h)
  show ?case
  proof (cases s)
    case Nil
    then show ?thesis by (simp add: lit_def)
  next
    case s: (Cons x xs)
    from Cons.IH[of "x # b" xs] show ?thesis
      unfolding s by (simp add: lit_def in_cset_ci split: option.split)
  qed
qed

lemma search_find_first:
  assumes "\<And>b s. map_option capture (match_here ic rs (b, s, [], [])) = f s"
  shows "map_option group1 (search_from ic rs b s) = find_first f s"
proof (induction s arbitrary: b)
  case Nil
  from assms[of b "[]", symmetric] show ?case
    by (cases "match_here ic rs (b, [], [], [])") (simp_all add: group1_capture)
next
  case (Cons x xs)
  from assms[of b "x # xs", symmetric] Cons.IH[of "x # b"] show ?case
    by (cases "match_here ic rs (b, x # xs, [], [])") (simp_all add: group1_capture)
qed

lemma marker_here:
  "(match_here ic section_marker (b, s, go, gc) = None) = (\<not> at_section_marker s)"
  by (cases s rule: at_section_marker.cases)
     (simp_all add: section_marker_def lit_def numeral_2_eq_2)

lemma rep_star_last: "match_here ic [Rep c 0 None True] (b, s, go, gc) \<noteq> None"
  by (induction s arbitrary: b) (simp_all split: option.split)

lemma blank_here:
  "(match_here ic [Rep (Ch CHR ''\<newline>'') 2 None True] (b, s, go, gc) = None) = (\<not> blank_line s)"
  by (cases s rule: blank_line.cases) (simp_all add: numeral_2_eq_2 rep_star_last)

lemma blank_here_lit:
  "(match_here ic (lit ''\<newline>\<newline>'') (b, s, go, gc) = None) = (\<not> blank_line s)"
  by (cases s rule: blank_line.cases) (simp_all add: lit_def)

lemma endz_here: "(match_here ic [EndZ] (b, s, go, gc) = None) = (s \<noteq> [])"
  by simp

lemma ahead_iff:
  "match_here ic (Ahead alts # R) st =
     (if list_all (\<lambda>a. match_here ic a st = None) alts then None else match_here ic R st)"
  by (induction alts) (auto split: option.split)

lemma ahead_title:
  "match_here ic (Ahead [section_marker, [Rep (Ch CHR ''\<newline>'') 2 None True], [EndZ]] # R)
     (b, s, go, gc) =
   (if section_end s then match_here ic R (b, s, go, gc) else None)"
  unfolding ahead_iff list.pred_inject marker_here blank_here endz_here section_end_def
  by simp

lemma ahead_inventors:
  "match_here ic (Ahead [section_marker, lit ''\<newline>\<newline>'', [EndZ]] # R) (b, s, go, gc) =
   (if section_end s then match_here ic R (b, s, go, gc) else None)"
  unfolding ahead_iff list.pred_inject marker_here blank_here_lit endz_here section_end_def
  by simp

lemma lazy_scan:
  assumes A: "\<And>b s go gc. match_here ic [A] (b, s, go, gc) =
                (if stop s then Some (b, s, go, gc) else None)"
    and e: "stop []"
  shows "match_here ic [Rep (Either Space NotSpace) 0 None False, GClose, A] (b, s, go, gc) =
           Some (rev (until stop s) @ b, drop (length (until stop s)) s, go,
                 rev (until stop s) @ b)"
proof (induction s arbitrary: b)
  case Nil
  show ?case by (simp add: A e)
next
  case (Cons x xs)
  show ?case
    by (simp add: A Cons.IH)
qed

lemma group_span:
  assumes A: "\<And>b s go gc. match_here ic [A] (b, s, go, gc) =
                (if stop s then Some (b, s, go, gc) else None)"
    and e: "stop []"
  shows "match_here ic [GOpen, Rep (Either Space NotSpace) (Suc 0) None False, GClose, A]
           (b, x # xs, go, gc) =
         Some (rev (until stop xs) @ x # b, drop (length (until stop xs)) xs, b,
               rev (until stop xs) @ x # b)"
    and "match_here ic [GOpen, Rep (Either Space NotSpace) (Suc 0) None False, GClose, A]
           (b, [], go, gc) = None"
  by (simp_all add: lazy_scan[OF A e])

lemma greedy_step:
  "match_here ic (Rep c 0 None True # rs) (b, x # xs, go, gc) =
     (if in_cset ic c x
      then (case match_here ic (Rep c 0 None True # rs) (x # b, xs, go, gc) of
              Some r \<Rightarrow> Some r
            | None \<Rightarrow> match_here ic rs (b, x # xs, go, gc))
      else match_here ic rs (b, x # xs, go, gc))"
  by simp

lemma greedy_nil:
  "match_here ic (Rep c 0 None True # rs) (b, [], go, gc) = match_here ic rs (b, [], go, gc)"
  by simp

lemma greedy_ws:
  assumes A: "\<And>b s go gc. match_here ic [A] (b, s, go, gc) =
                (if stop s then Some (b, s, go, gc) else None)"
    and e: "stop []"
  shows "map_option capture
           (match_here ic
              [Rep Space 0 None True, GOpen, Rep (Either Space NotSpace) (Suc 0) None False,
               GClose, A]
              (b, s, go, gc)) = span_after stop s"
proof (induction s arbitrary: b)
  case Nil
  show ?case
    unfolding greedy_nil group_span(2)[OF A e] by (simp add: span_after_def)
next
  case (Cons x xs)
  note K = group_span(1)[OF A e]
  show ?case
  proof (cases "isspace x")
    case False
    then show ?thesis
      unfolding greedy_step K by (simp add: span_after_def)
  next
    case sp: True
    show ?thesis
    proof (cases xs)
      case Nil
      with sp show ?thesis
        unfolding greedy_step Nil greedy_nil group_span(2)[OF A e] K
        by (simp add: span_after_def)
    next
      case xs: (Cons y ys)
      have "span_after stop xs \<noteq> None"
        unfolding xs by (simp add: span_after_def)
      with Cons.IH[of "x # b"] obtain r where
        r: "match_here ic
              [Rep Space 0 None True, GOpen, Rep (Either Space NotSpace) (Suc 0) None False,
               GClose, A]
              (x # b, xs, go, gc) = Some r"
        and c: "Some (capture r) = span_after stop xs"
        by (cases "match_here ic
              [Rep Space 0 None True, GOpen, Rep (Either Space NotSpace) (Suc 0) None False,
               GClose, A]
              (x # b, xs, go, gc)") auto
      have "span_after stop (x # xs) = span_after stop xs"
        using sp unfolding xs by (simp add: span_after_def)
      with sp r c show ?thesis
        unfolding greedy_step by simp
    qed
  qed
qed

lemma section_end_Nil: "section_end []"
  by (simp add: section_end_def)

lemma ahead_title_last:
  "match_here ic [Ahead [section_marker, [Rep (Ch CHR ''\<newline>'') 2 None True], [EndZ]]]
     (b, s, go, gc) =
   (if section_end s then Some (b, s, go, gc) else None)"
  unfolding ahead_title by simp

lemma ahead_inventors_last:
  "match_here ic [Ahead [section_marker, lit ''\<newline>\<newline>'', [EndZ]]] (b, s, go, gc) =
   (if section_end s then Some (b, s, go, gc) else None)"
  unfolding ahead_inventors by simp

lemma title_here:
  "map_option capture (match_here True title_rx (b, s, go, gc)) =
     (case after_heading ''(54)'' s of None \<Rightarrow> None | Some r \<Rightarrow> span_after section_end r)"
  unfolding title_rx_def match_lit One_nat_def
  by (simp add: greedy_ws[OF ahead_title_last section_end_Nil] split: option.split
      del: match_here.simps)

lemma title_match_span: "map_option group1 (title_match text) = title_span text"
  unfolding title_match_def re_search_def title_span_def
  by (rule search_find_first) (rule title_here)

lemma title_refines:
  "title (parse_patent_info text) =
     (case title_span text of
        None \<Rightarrow> ''Title N/A''
      | Some c \<Rightarrow> lstrip_chars '')'' (replace_newline (strip c)))"
  unfolding title_match_span[symmetric]
  by (cases "title_match text") (simp_all add: parse_patent_info_def Let_def lstrip_chars_def)

lemma after_heading_append:
  "after_heading (h1 @ h2) s =
     (case after_heading h1 s of None \<Rightarrow> None | Some r \<Rightarrow> after_heading h2 r)"
proof (induction h1 arbitrary: s)
  case Nil
  show ?case by simp
next
  case (Cons c h1)
  then show ?case by (cases s) simp_all
qed

lemma opt_char_nil:
  "match_here ic (Rep c 0 (Some (Suc 0)) True # rs) (b, [], go, gc) =
     match_here ic rs (b, [], go, gc)"
  by simp

lemma opt_char_step:
  "match_here ic (Rep c 0 (Some (Suc 0)) True # rs) (b, x # xs, go, gc) =
     (if in_cset ic c x
      then (case match_here ic rs (x # b, xs, go, gc) of
              Some r \<Rightarrow> Some r
            | None \<Rightarrow> match_here ic rs (b, x # xs, go, gc))
      else match_here ic rs (b, x # xs, go, gc))"
  by simp

lemma s_not_colon: "tolower x = tolower CHR ''s'' \<Longrightarrow> tolower x \<noteq> tolower CHR '':''"
  by (simp add: tolower_def)

lemma colon_then_span:
  "map_option capture
     (match_here True
        (lit '':'' @
         [Rep Space 0 None True, GOpen, Rep (Either Space NotSpace) (Suc 0) None False, GClose,
          Ahead [section_marker, lit ''\<newline>\<newline>'', [EndZ]]]) (b, s, go, gc)) =
   (case after_heading '':'' s of None \<Rightarrow> None | Some r \<Rightarrow> span_after section_end r)"
  unfolding match_lit
  by (simp add: greedy_ws[OF ahead_inventors_last section_end_Nil] split: option.split
      del: match_here.simps)

lemma s_colon_distinct: "tolower CHR ''s'' \<noteq> tolower CHR '':''"
  by (simp add: tolower_def)

lemma option_case_None: "(case m of None \<Rightarrow> None | Some r \<Rightarrow> Some r) = m"
  by (cases m) simp_all

lemma inventors_tail:
  "map_option capture
     (match_here True
        (Rep (Ch CHR ''s'') 0 (Some (Suc 0)) True #
         lit '':'' @
         [Rep Space 0 None True, GOpen, Rep (Either Space NotSpace) (Suc 0) None False, GClose,
          Ahead [section_marker, lit ''\<newline>\<newline>'', [EndZ]]]) (b, r, go, gc)) =
   (case (case after_heading ''s:'' r of Some r' \<Rightarrow> Some r' | None \<Rightarrow> after_heading '':'' r) of
      None \<Rightarrow> None
    | Some r' \<Rightarrow> span_after section_end r')"
proof (cases r)
  case Nil
  show ?thesis
    unfolding Nil opt_char_nil colon_then_span by simp
next
  case (Cons x xs)
  show ?thesis
  proof (cases "tolower x = tolower CHR ''s''")
    case True
    from s_not_colon[OF True] have n: "after_heading '':'' (x # xs) = None"
      by simp
    have z: "match_here True
                (lit '':'' @
                 [Rep Space 0 None True, GOpen, Rep (Either Space NotSpace) (Suc 0) None False,
                  GClose, Ahead [section_marker, lit ''\<newline>\<newline>'', [EndZ]]])
                (b, x # xs, go, gc) = None"
      using colon_then_span[of b "x # xs" go gc] unfolding n by simp
    have sp: "(case after_heading ''s:'' (x # xs) of Some r' \<Rightarrow> Some r'
               | None \<Rightarrow> after_heading '':'' (x # xs)) = after_heading '':'' xs"
      unfolding n using True by (simp add: option_case_None)
    show ?thesis
      unfolding Cons opt_char_step in_cset_ci sp z using True
      by (simp add: option_case_None colon_then_span del: match_here.simps)
  next
    case False
    have sp: "(case after_heading ''s:'' (x # xs) of Some r' \<Rightarrow> Some r'
               | None \<Rightarrow> after_heading '':'' (x # xs)) = after_heading '':'' (x # xs)"
      using False by simp
    show ?thesis
      unfolding Cons opt_char_step in_cset_ci sp using False
      by (simp add: colon_then_span del: match_here.simps)
  qed
qed

lemma inventors_here:
  "map_option capture (match_here True inventors_rx (b, s, go, gc)) =
     (case (case after_heading ''Inventors:'' s of
              Some r \<Rightarrow> Some r
            | None \<Rightarrow> after_heading ''Inventor:'' s) of
        None \<Rightarrow> None
      | Some r \<Rightarrow> span_after section_end r)"
proof -
  have h1: "after_heading ''Inventors:'' s =
      (case after_heading ''Inventor'' s of None \<Rightarrow> None | Some r \<Rightarrow> after_heading ''s:'' r)"
    using after_heading_append[of "''Inventor''" "''s:''" s] by simp
  have h2: "after_heading ''Inventor:'' s =
      (case after_heading ''Inventor'' s of None \<Rightarrow> None | Some r \<Rightarrow> after_heading '':'' r)"
    using after_heading_append[of "''Inventor''" "'':''" s] by simp
  show ?thesis
  proof (cases "after_heading ''Inventor'' s")
    case None
    show ?thesis
      unfolding inventors_rx_def match_lit h1 h2 None by simp
  next
    case (Some r)
    show ?thesis
      unfolding inventors_rx_def match_lit h1 h2 Some option.case append_Cons append_Nil
        One_nat_def inventors_tail ..
  qed
qed

lemma inventors_match_span: "map_option group1 (inventors_match text) = inventors_span text"
  unfolding inventors_match_def re_search_def inventors_span_def
  by (rule search_find_first) (rule inventors_here)

lemma inventors_refines:
  "inventors (parse_patent_info text) =
     (case inventors_span text of
        None \<Rightarrow> ''Inventors N/A''
      | Some c \<Rightarrow> replace_newline (strip c))"
  unfolding inventors_match_span[symmetric]
  by (cases "inventors_match text") (simp_all add: parse_patent_info_def Let_def)

lemma after_heading_take:
  "after_heading h s = Some r \<Longrightarrow>
   length h \<le> length s \<and> map tolower (take (length h) s) = map tolower h \<and> r = drop (length h) s"
proof (induction h arbitrary: s)
  case Nil
  then show ?case by simp
next
  case (Cons c h)
  then show ?case by (cases s) (auto split: if_splits)
qed

lemma find_first_skip:
  "(\<And>p q. pre = p @ q \<Longrightarrow> q \<noteq> [] \<Longrightarrow> f (q @ rest) = None) \<Longrightarrow>
   find_first f (pre @ rest) = find_first f rest"
proof (induction pre)
  case Nil
  show ?case by simp
next
  case (Cons x pre)
  have "f ((x # pre) @ rest) = None"
    by (rule Cons.prems[of "[]"]) simp_all
  moreover have "find_first f (pre @ rest) = find_first f rest"
  proof (rule Cons.IH)
    fix p q assume "pre = p @ q" "q \<noteq> []"
    then show "f (q @ rest) = None"
      using Cons.prems[of "x # p" q] by simp
  qed
  ultimately show ?case by simp
qed

lemma find_first_None:
  "(\<And>p q. s = p @ q \<Longrightarrow> f q = None) \<Longrightarrow> find_first f s = None"
proof (induction s)
  case Nil
  then show ?case by simp
next
  case (Cons x s)
  have "f (x # s) = None"
    by (rule Cons.prems[of "[]"]) simp
  moreover have "find_first f s = None"
  proof (rule Cons.IH)
    fix p q assume "s = p @ q"
    then show "f q = None"
      using Cons.prems[of "x # p" q] by simp
  qed
  ultimately show ?case by simp
qed

lemma sublist_of_suffix_take:
  assumes "pre = p @ q" and "n \<le> length q" and "map g (take n q) = h"
  shows "sublist h (map g pre)"
proof -
  have "map g pre = map g p @ h @ map g (drop n q)"
    unfolding assms(1) assms(3)[symmetric]
    by (simp add: map_append[symmetric] del: map_append)
  then show ?thesis
    unfolding sublist_def by blast
qed

section \<open>The title rule\<close>

lemma tolower_open [simp]: "(tolower x = CHR ''('') = (x = CHR ''('')"
  using ci_caseless[of "CHR ''(''" x] by (simp add: tolower_def)

lemma tolower_close [simp]: "(tolower x = CHR '')'') = (x = CHR '')'')"
  using ci_caseless[of "CHR '')''" x] by (simp add: tolower_def)

lemma tolower_five [simp]: "(tolower x = CHR ''5'') = (x = CHR ''5'')"
  using ci_caseless[of "CHR ''5''" x] by (simp add: tolower_def)

lemma tolower_four [simp]: "(tolower x = CHR ''4'') = (x = CHR ''4'')"
  using ci_caseless[of "CHR ''4''" x] by (simp add: tolower_def)

lemma map_tolower_54: "map tolower s = map tolower ''(54)'' \<Longrightarrow> s = ''(54)''"
  by (auto simp: tolower_def[of "CHR ''(''"] tolower_def[of "CHR ''5''"]
      tolower_def[of "CHR ''4''"] tolower_def[of "CHR '')''"])

lemma marker_prefix:
  assumes "after_heading ''(54)'' s = Some r"
  shows "take 4 s = ''(54)'' \<and> 4 \<le> length s"
proof -
  have l: "length ''(54)'' = 4" by simp
  from after_heading_take[OF assms, unfolded l]
  have "4 \<le> length s" and "map tolower (take 4 s) = map tolower ''(54)''"
    by blast+
  then show ?thesis
    using map_tolower_54[of "take 4 s"] by blast
qed

lemma at_section_marker_first: "a \<noteq> CHR ''('' \<Longrightarrow> at_section_marker (a # s) = False"
  by (cases "a # s" rule: at_section_marker.cases) simp_all

lemma title_no_marker:
  assumes "\<not> sublist ''(54)'' s"
  shows "title_span s = None"
  unfolding title_span_def
proof (rule find_first_None)
  fix p q assume s: "s = p @ q"
  have "after_heading ''(54)'' q = None"
  proof (cases "after_heading ''(54)'' q")
    case None
    then show ?thesis .
  next
    case (Some r)
    from marker_prefix[OF Some] have "q = ''(54)'' @ drop 4 q"
      by (metis append_take_drop_id)
    with s have "s = p @ ''(54)'' @ drop 4 q" by simp
    with assms show ?thesis unfolding sublist_def by blast
  qed
  then show "(case after_heading ''(54)'' q of None \<Rightarrow> None
              | Some r \<Rightarrow> span_after section_end r) = None"
    by simp
qed

lemma title_marker_first:
  assumes "\<not> sublist ''(54)'' pre" and "pre = p @ q" and "q \<noteq> []"
    and t: "t ! 0 \<noteq> CHR '')''" "t ! 1 \<noteq> CHR '')''" "t ! 2 \<noteq> CHR '')''"
  shows "after_heading ''(54)'' (q @ t) = None"
proof (cases "after_heading ''(54)'' (q @ t)")
  case None
  then show ?thesis .
next
  case (Some r)
  from marker_prefix[OF Some] have tk: "take 4 (q @ t) = ''(54)''" by simp
  show ?thesis
  proof (cases "4 \<le> length q")
    case True
    with tk have "take 4 q = ''(54)''" by simp
    then have "q = ''(54)'' @ drop 4 q"
      by (metis append_take_drop_id)
    with assms(2) have "pre = p @ ''(54)'' @ drop 4 q" by simp
    with assms(1) show ?thesis unfolding sublist_def by blast
  next
    case False
    have "(q @ t) ! 3 = take 4 (q @ t) ! 3"
      by (rule nth_take[symmetric]) simp
    then have "(q @ t) ! 3 = CHR '')''"
      unfolding tk by simp
    with False have "t ! (3 - length q) = CHR '')''"
      by (simp add: nth_append)
    moreover from False assms(3) have "3 - length q = 0 \<or> 3 - length q = 1 \<or> 3 - length q = 2"
      by (cases q) auto
    ultimately show ?thesis using t by auto
  qed
qed

lemma title_example_span:
  assumes "\<not> sublist ''(54)'' pre"
  shows "title_span (pre @ ''(54) A Widget Apparatus\<newline>\<newline>'' @ suf) = Some ''A Widget Apparatus''"
proof -
  let ?f = "\<lambda>s. case after_heading ''(54)'' s of None \<Rightarrow> None
                | Some r \<Rightarrow> span_after section_end r"
  let ?t = "''(54) A Widget Apparatus\<newline>\<newline>'' @ suf"
  have "find_first ?f (pre @ ?t) = find_first ?f ?t"
  proof (rule find_first_skip)
    fix p q assume "pre = p @ q" "q \<noteq> []"
    from title_marker_first[OF assms this, of ?t]
    show "?f (q @ ?t) = None" by simp
  qed
  also have "\<dots> = Some ''A Widget Apparatus''"
    by (simp add: span_after_def section_end_def isspace_def at_section_marker_first)
  finally show ?thesis unfolding title_span_def .
qed

lemma no_marker_US: "\<not> sublist ''(54)'' ''US 1 ''"
  by (simp add: sublist_Cons_right)

lemma no_marker_plain: "\<not> sublist ''(54)'' ''no marker''"
  by (simp add: sublist_Cons_right)

section \<open>The inventors rule\<close>

lemma lower_Inventor_colon: "map tolower ''Inventor:'' = ''inventor:''"
  by code_simp

lemma lower_Inventors_colon: "map tolower ''Inventors:'' = ''inventors:''"
  by code_simp

lemma inventors_no_heading:
  assumes "\<not> sublist ''inventor:'' (map tolower s)"
    and "\<not> sublist ''inventors:'' (map tolower s)"
  shows "inventors_span s = None"
  unfolding inventors_span_def
proof (rule find_first_None)
  fix p q assume s: "s = p @ q"
  have a: "after_heading ''Inventors:'' q = None"
  proof (cases "after_heading ''Inventors:'' q")
    case None
    then show ?thesis .
  next
    case (Some r)
    from after_heading_take[OF Some]
    have "length ''Inventors:'' \<le> length q"
      and "map tolower (take (length ''Inventors:'') q) = ''inventors:''"
      unfolding lower_Inventors_colon by blast+
    from sublist_of_suffix_take[OF s this] assms(2) show ?thesis by blast
  qed
  have b: "after_heading ''Inventor:'' q = None"
  proof (cases "after_heading ''Inventor:'' q")
    case None
    then show ?thesis .
  next
    case (Some r)
    from after_heading_take[OF Some]
    have "length ''Inventor:'' \<le> length q"
      and "map tolower (take (length ''Inventor:'') q) = ''inventor:''"
      unfolding lower_Inventor_colon by blast+
    from sublist_of_suffix_take[OF s this] assms(1) show ?thesis by blast
  qed
  show "(case (case after_heading ''Inventors:'' q of
                 Some r \<Rightarrow> Some r
               | None \<Rightarrow> after_heading ''Inventor:'' q) of
           None \<Rightarrow> None
         | Some r \<Rightarrow> span_after section_end r) = None"
    unfolding a b by simp
qed

lemma no_inventor_heading:
  "\<not> sublist ''inventor:'' (map tolower ''no heading'') \<and>
   \<not> sublist ''inventors:'' (map tolower ''no heading'')"
  by code_simp

section \<open>The text artifact\<close>

lemma universal_newlines_keep:
  "c \<noteq> CHR 0x0D \<Longrightarrow> universal_newlines (c # s) = c # universal_newlines s"
  by (cases s) simp_all

lemma universal_newlines_crlf:
  "universal_newlines (CHR 0x0D # CHR ''\<newline>'' # s) = CHR ''\<newline>'' # universal_newlines s"
  by simp

lemma newline_not_cr: "CHR ''\<newline>'' \<noteq> CHR 0x0D"
  by simp

lemma newlines_roundtrip:
  assumes "sep = ''\<newline>'' \<or> sep = [CHR 0x0D, CHR ''\<newline>'']" and "CHR 0x0D \<notin> set s"
  shows "universal_newlines (translate_newlines sep s) = s"
  using assms(2)
proof (induction s)
  case Nil
  show ?case by (simp add: translate_newlines_def)
next
  case (Cons c s)
  then have ih: "universal_newlines (translate_newlines sep s) = s" and c: "c \<noteq> CHR 0x0D"
    by auto
  have t: "translate_newlines sep (c # s) =
             (if c = CHR ''\<newline>'' then sep else [c]) @ translate_newlines sep s"
    by (simp add: translate_newlines_def)
  show ?case
  proof (cases "c = CHR ''\<newline>''")
    case True
    from assms(1) show ?thesis
    proof
      assume "sep = ''\<newline>''"
      with True ih show ?thesis
        unfolding t by (simp add: universal_newlines_keep del: universal_newlines.simps)
    next
      assume "sep = [CHR 0x0D, CHR ''\<newline>'']"
      with True ih show ?thesis
        unfolding t by (simp add: universal_newlines_crlf del: universal_newlines.simps)
    qed
  next
    case False
    with c ih show ?thesis
      unfolding t by (simp add: universal_newlines_keep del: universal_newlines.simps)
  qed
qed

lemma translate_newlines_posix: "translate_newlines ''\<newline>'' s = s"
  by (induction s) (simp_all add: translate_newlines_def)

text \<open>
  Claim C7, as the code has it. For every page of a successful run, the text kept in memory
  is the left column's text, two newlines and the right column's text. \<open>page_{i}.txt\<close>
  holds the UTF-8 encoding of that text with each newline written as the line separator of
  the platform; where the separator is a newline, these are the bytes of the text itself.
  Reading the file back in text mode gives the text again when the text holds no carriage
  return.
\<close>

theorem convert_pdf_to_images_page_text:
  assumes "convert_from_path ev pdf (poppler_path ev) 600 = Inr images"
    and "convert_pdf_to_images ev pdf out files = (Inr (image_paths, texts), files')"
    and "i < length images"
  shows "\<exists>left right left_text right_text.
           split_image (images ! i) = Inr (left, right) \<and>
           image_to_string ev left = Inr left_text \<and>
           image_to_string ev right = Inr right_text \<and>
           texts ! i = left_text @ ''\<newline>\<newline>'' @ right_text \<and>
           files' (out @ [''page_'' @ str (i + 1) @ ''.txt'']) =
             Some (TextFile (utf8_encode (translate_newlines (linesep ev) (texts ! i)))) \<and>
           (linesep ev = ''\<newline>'' \<longrightarrow>
              files' (out @ [''page_'' @ str (i + 1) @ ''.txt'']) =
                Some (TextFile (utf8_encode (left_text @ ''\<newline>\<newline>'' @ right_text)))) \<and>
           ((linesep ev = ''\<newline>'' \<or> linesep ev = [CHR 0x0D, CHR ''\<newline>'']) \<and>
            CHR 0x0D \<notin> set (texts ! i) \<longrightarrow>
              read_text (out @ [''page_'' @ str (i + 1) @ ''.txt'']) files' = Some (texts ! i))"
proof -
  note run = convert_success[OF assms(1,2)]
  from pages_loop_pages[OF run] assms(3)
  have "page_done ev out files' (1 + i) (images ! i) (texts ! i)"
    by auto
  then obtain left right lt rt where
    sp: "split_image (images ! i) = Inr (left, right)"
    and l: "image_to_string ev left = Inr lt"
    and r: "image_to_string ev right = Inr rt"
    and t: "texts ! i = lt @ ''\<newline>\<newline>'' @ rt"
    and f: "files' (out @ [''page_'' @ str (i + 1) @ ''.txt'']) =
             Some (TextFile (utf8_encode (translate_newlines (linesep ev) (texts ! i))))"
    unfolding page_done_def extract_text_from_image_def by auto
  have p: "linesep ev = ''\<newline>'' \<longrightarrow>
      files' (out @ [''page_'' @ str (i + 1) @ ''.txt'']) =
        Some (TextFile (utf8_encode (lt @ ''\<newline>\<newline>'' @ rt)))"
    using f t by (simp add: translate_newlines_posix)
  have rd: "(linesep ev = ''\<newline>'' \<or> linesep ev = [CHR 0x0D, CHR ''\<newline>'']) \<and>
            CHR 0x0D \<notin> set (texts ! i) \<longrightarrow>
              read_text (out @ [''page_'' @ str (i + 1) @ ''.txt'']) files' = Some (texts ! i)"
  proof
    assume a: "(linesep ev = ''\<newline>'' \<or> linesep ev = [CHR 0x0D, CHR ''\<newline>'']) \<and>
            CHR 0x0D \<notin> set (texts ! i)"
    then have "universal_newlines (translate_newlines (linesep ev) (texts ! i)) = texts ! i"
      by (intro newlines_roundtrip) blast+
    then show "read_text (out @ [''page_'' @ str (i + 1) @ ''.txt'']) files' = Some (texts ! i)"
      unfolding read_text_def f by (simp add: utf8_roundtrip)
  qed
  from sp l r t f p rd show ?thesis by blast
qed

theorem convert_pdf_to_images_page_text_witness:
  "convert_from_path example_env [''patent.pdf''] (poppler_path example_env) 600 =
     Inr [example_page, example_page] \<and> (1::nat) < length [example_page, example_page] \<and>
   linesep example_env = ''\<newline>'' \<and> CHR 0x0D \<notin> set ''ab\<newline>\<newline>c'' \<and>
   (\<exists>files'.
      convert_pdf_to_images example_env [''patent.pdf''] [''images''] Map.empty =
        (Inr ([[''images'', ''page_1.png''], [''images'', ''page_2.png'']],
              [''ab\<newline>\<newline>c'', ''ab\<newline>\<newline>c'']), files') \<and>
      files' [''images'', ''page_2.txt''] = Some (TextFile (utf8_encode ''ab\<newline>\<newline>c'')) \<and>
      read_text [''images'', ''page_2.txt''] files' = Some ''ab\<newline>\<newline>c'')"
proof -
  have h1: "convert_from_path example_env [''patent.pdf''] (poppler_path example_env) 600 =
              Inr [example_page, example_page]"
    by (simp add: example_env_def)
  have h2: "convert_pdf_to_images example_env [''patent.pdf''] [''images''] Map.empty =
        (Inr ([[''images'', ''page_1.png''], [''images'', ''page_2.png'']],
              [''ab\<newline>\<newline>c'', ''ab\<newline>\<newline>c'']),
         snd (convert_pdf_to_images example_env [''patent.pdf''] [''images''] Map.empty))"
    using example_run by (simp add: prod_eq_iff)
  have h3: "(1::nat) < length [example_page, example_page]" by simp
  have h4: "linesep example_env = ''\<newline>''" by (simp add: example_env_def)
  have h5: "CHR 0x0D \<notin> set ''ab\<newline>\<newline>c''" by simp
  have s: "str (1 + 1) = ''2''" using str_Suc_Suc_0 by simp
  from convert_pdf_to_images_page_text[OF h1 h2 h3] obtain lt rt where
    t: "[''ab\<newline>\<newline>c'', ''ab\<newline>\<newline>c''] ! 1 = lt @ ''\<newline>\<newline>'' @ rt"
    and p: "linesep example_env = ''\<newline>'' \<longrightarrow>
      snd (convert_pdf_to_images example_env [''patent.pdf''] [''images''] Map.empty)
        ([''images''] @ [''page_'' @ str (1 + 1) @ ''.txt'']) =
        Some (TextFile (utf8_encode (lt @ ''\<newline>\<newline>'' @ rt)))"
    and r: "(linesep example_env = ''\<newline>'' \<or> linesep example_env = [CHR 0x0D, CHR ''\<newline>'']) \<and>
            CHR 0x0D \<notin> set ([''ab\<newline>\<newline>c'', ''ab\<newline>\<newline>c''] ! 1) \<longrightarrow>
      read_text ([''images''] @ [''page_'' @ str (1 + 1) @ ''.txt''])
        (snd (convert_pdf_to_images example_env [''patent.pdf''] [''images''] Map.empty)) =
        Some ([''ab\<newline>\<newline>c'', ''ab\<newline>\<newline>c''] ! 1)"
    by blast
  from t have t': "lt @ ''\<newline>\<newline>'' @ rt = ''ab\<newline>\<newline>c''" by simp
  from p h4 have p': "snd (convert_pdf_to_images example_env [''patent.pdf''] [''images''] Map.empty)
        [''images'', ''page_2.txt''] = Some (TextFile (utf8_encode ''ab\<newline>\<newline>c''))"
    unfolding s t' by simp
  from r h4 h5 have r': "read_text [''images'', ''page_2.txt'']
        (snd (convert_pdf_to_images example_env [''patent.pdf''] [''images''] Map.empty)) =
        Some ''ab\<newline>\<newline>c''"
    unfolding s by simp
  from h1 h2 h3 h4 h5 p' r' show ?thesis by blast
qed

text \<open>
  The claim as stated fails on both counts. A recognised text that holds a carriage return
  does not read back equal, on any platform; and with the line separator of Windows the
  stored bytes are not those of the text.
\<close>

theorem page_text_round_trip_fails:
  "fst (convert_pdf_to_images cr_env [''patent.pdf''] [''images''] Map.empty) =
     Inr ([[''images'', ''page_1.png'']],
          [[CHR ''a'', CHR 0x0D, CHR ''\<newline>'', CHR ''\<newline>'', CHR ''a'', CHR 0x0D]]) \<and>
   read_text [''images'', ''page_1.txt'']
     (snd (convert_pdf_to_images cr_env [''patent.pdf''] [''images''] Map.empty)) =
     Some ''a\<newline>\<newline>a\<newline>'' \<and>
   fst (convert_pdf_to_images windows_env [''patent.pdf''] [''images''] Map.empty) =
     Inr ([[''images'', ''page_1.png'']], [''a\<newline>\<newline>a'']) \<and>
   (case snd (convert_pdf_to_images windows_env [''patent.pdf''] [''images''] Map.empty)
           [''images'', ''page_1.txt''] of
      Some (TextFile bytes) \<Rightarrow>
        bytes = utf8_encode
          [CHR ''a'', CHR 0x0D, CHR ''\<newline>'', CHR 0x0D, CHR ''\<newline>'', CHR ''a'']
    | _ \<Rightarrow> False) \<and>
   utf8_encode [CHR ''a'', CHR 0x0D, CHR ''\<newline>'', CHR 0x0D, CHR ''\<newline>'', CHR ''a''] \<noteq>
     utf8_encode ''a\<newline>\<newline>a''"
  by code_simp

section \<open>Claims about the title rule\<close>

lemma find_first_compose:
  "find_first g s = Some r \<Longrightarrow> k r \<noteq> None \<Longrightarrow>
   find_first (\<lambda>s. case g s of None \<Rightarrow> None | Some r \<Rightarrow> k r) s = k r"
proof (induction s)
  case Nil
  then show ?case by simp
next
  case (Cons x xs)
  show ?case
  proof (cases "g (x # xs)")
    case None
    with Cons show ?thesis by simp
  next
    case (Some r')
    with Cons.prems have "r' = r" by simp
    with Some Cons.prems(2) show ?thesis by (cases "k r") simp_all
  qed
qed

lemma strip_leading_space: "isspace x \<Longrightarrow> strip (x # u) = strip u"
  by (simp add: strip_def lstrip_def)

lemma span_nonblank:
  "\<not> list_all isspace (until section_end r) \<Longrightarrow>
   \<exists>c. span_after section_end r = Some c \<and> strip c = strip (until section_end r)"
proof (induction r)
  case Nil
  then show ?case by simp
next
  case (Cons x xs)
  from Cons.prems have ne: "\<not> section_end (x # xs)"
    by (cases "section_end (x # xs)") simp_all
  then have u: "until section_end (x # xs) = x # until section_end xs"
    by simp
  show ?case
  proof (cases "isspace x")
    case True
    with Cons.prems u have nb: "\<not> list_all isspace (until section_end xs)"
      by simp
    then have "xs \<noteq> []" by (cases xs) simp_all
    with True have "span_after section_end (x # xs) = span_after section_end xs"
      by (simp add: span_after_def)
    with Cons.IH[OF nb] True show ?thesis
      unfolding u by (simp add: strip_leading_space)
  next
    case False
    then have "span_after section_end (x # xs) = Some (x # until section_end xs)"
      by (simp add: span_after_def)
    then show ?thesis unfolding u by simp
  qed
qed

lemma title_span_nonblank:
  assumes "find_first (after_heading ''(54)'') s = Some r"
    and "\<not> list_all isspace (until section_end r)"
  shows "\<exists>c. title_span s = Some c \<and> strip c = strip (until section_end r)"
proof -
  from span_nonblank[OF assms(2)] obtain c where
    c: "span_after section_end r = Some c" "strip c = strip (until section_end r)"
    by blast
  from c(1) have "span_after section_end r \<noteq> None" by simp
  from find_first_compose[OF assms(1), of "span_after section_end", OF this] c
  show ?thesis unfolding title_span_def by simp
qed

lemma title_of_span:
  assumes "find_first (after_heading ''(54)'') s = Some r"
    and "\<not> list_all isspace (until section_end r)"
  shows "title (parse_patent_info s) =
           lstrip_chars '')'' (replace_newline (strip (until section_end r)))"
proof -
  from title_span_nonblank[OF assms] obtain c where
    "title_span s = Some c" "strip c = strip (until section_end r)"
    by blast
  then show ?thesis unfolding title_refines by simp
qed

lemma widget_span:
  "until section_end ('' A Widget Apparatus\<newline>\<newline>'' @ suf) = '' A Widget Apparatus''"
  by (simp add: section_end_def at_section_marker_first)

lemma widget_title:
  "lstrip_chars '')'' (replace_newline (strip '' A Widget Apparatus'')) = ''A Widget Apparatus''"
  by code_simp

lemma widget_nonblank: "\<not> list_all isspace '' A Widget Apparatus''"
  by code_simp

text \<open>
  Claim C3, as the code has it by design. The title is taken at the leftmost \<open>(54)\<close>
  marker of the text. Whenever the text after that marker, up to the next numeric section
  marker \<open>(dd)\<close>, pair of newlines or end of text, holds a character that is not
  whitespace, the title is that text, post-processed. When the leftmost marker is followed
  by \<open>A Widget Apparatus\<close> and a blank line, the title is \<open>A Widget Apparatus\<close>; a text
  with no \<open>(54)\<close> gives \<open>Title N/A\<close>. Nothing is said here of a marker whose text up
  to the next terminator is blank.
\<close>

theorem title_rule:
  "(find_first (after_heading ''(54)'') t1 = Some r \<and>
    \<not> list_all isspace (until section_end r) \<longrightarrow>
      title (parse_patent_info t1) =
        lstrip_chars '')'' (replace_newline (strip (until section_end r)))) \<and>
   (\<not> sublist ''(54)'' pre \<longrightarrow>
      title (parse_patent_info (pre @ ''(54) A Widget Apparatus\<newline>\<newline>'' @ suf)) =
        ''A Widget Apparatus'') \<and>
   (find_first (after_heading ''(54)'') t2 = Some ('' A Widget Apparatus\<newline>\<newline>'' @ suf2) \<longrightarrow>
      title (parse_patent_info t2) = ''A Widget Apparatus'') \<and>
   (\<not> sublist ''(54)'' t3 \<longrightarrow> title (parse_patent_info t3) = ''Title N/A'')"
proof (intro conjI impI)
  assume "find_first (after_heading ''(54)'') t1 = Some r \<and>
    \<not> list_all isspace (until section_end r)"
  then show "title (parse_patent_info t1) =
        lstrip_chars '')'' (replace_newline (strip (until section_end r)))"
    by (intro title_of_span) blast+
next
  assume "\<not> sublist ''(54)'' pre"
  from title_example_span[OF this, of suf]
  show "title (parse_patent_info (pre @ ''(54) A Widget Apparatus\<newline>\<newline>'' @ suf)) =
        ''A Widget Apparatus''"
    unfolding title_refines
    by (simp add: strip_def lstrip_def rstrip_def replace_newline_def lstrip_chars_def isspace_def)
next
  assume a: "find_first (after_heading ''(54)'') t2 = Some ('' A Widget Apparatus\<newline>\<newline>'' @ suf2)"
  have "\<not> list_all isspace (until section_end ('' A Widget Apparatus\<newline>\<newline>'' @ suf2))"
    unfolding widget_span by (rule widget_nonblank)
  from title_of_span[OF a this] show "title (parse_patent_info t2) = ''A Widget Apparatus''"
    unfolding widget_span widget_title .
next
  assume "\<not> sublist ''(54)'' t3"
  from title_no_marker[OF this] show "title (parse_patent_info t3) = ''Title N/A''"
    unfolding title_refines by simp
qed

lemma witness_first_marker:
  "find_first (after_heading ''(54)'') ''US 1 (54) A Widget Apparatus\<newline>\<newline>(57) Abstract ...'' =
     Some ('' A Widget Apparatus\<newline>\<newline>'' @ ''(57) Abstract ...'')"
  by code_simp

lemma witness_nonblank:
  "\<not> list_all isspace
       (until section_end ('' A Widget Apparatus\<newline>\<newline>'' @ ''(57) Abstract ...''))"
  by code_simp

theorem title_rule_witness:
  "find_first (after_heading ''(54)'') ''US 1 (54) A Widget Apparatus\<newline>\<newline>(57) Abstract ...'' =
     Some ('' A Widget Apparatus\<newline>\<newline>'' @ ''(57) Abstract ...'') \<and>
   \<not> list_all isspace
       (until section_end ('' A Widget Apparatus\<newline>\<newline>'' @ ''(57) Abstract ...'')) \<and>
   title (parse_patent_info ''US 1 (54) A Widget Apparatus\<newline>\<newline>(57) Abstract ...'') =
     ''A Widget Apparatus'' \<and>
   \<not> sublist ''(54)'' ''US 1 '' \<and>
   title (parse_patent_info (''US 1 '' @ ''(54) A Widget Apparatus\<newline>\<newline>'' @ ''(57) Abstract ...'')) =
     ''A Widget Apparatus'' \<and>
   \<not> sublist ''(54)'' ''no marker'' \<and>
   title (parse_patent_info ''no marker'') = ''Title N/A''"
  using title_rule[of "''US 1 (54) A Widget Apparatus\<newline>\<newline>(57) Abstract ...''"
      "'' A Widget Apparatus\<newline>\<newline>'' @ ''(57) Abstract ...''" "''US 1 ''" "''(57) Abstract ...''"
      "''US 1 (54) A Widget Apparatus\<newline>\<newline>(57) Abstract ...''" "''(57) Abstract ...''"
      "''no marker''"]
    witness_first_marker witness_nonblank no_marker_US no_marker_plain
  by blast

text \<open>
  The claim as stated, that a text containing the example has the example's title, fails
  when another \<open>(54)\<close> marker stands to the left: the search takes the leftmost one.
\<close>

theorem title_takes_first_marker:
  "title (parse_patent_info
     (''(54) X\<newline>\<newline>'' @ ''(54) A Widget Apparatus\<newline>\<newline>(57) Abstract ...'')) = ''X''"
  by code_simp

text \<open>
  Where a terminator follows the marker at once, the code does not stop at it: the blank
  line is skipped as whitespace and the marker \<open>(57)\<close> is taken into the capture, against
  the comment on the same pattern in \<open>CVRT3.0.py\<close> ("until another section or blank
  line"). The reading of the specification gives the empty title there.
\<close>

theorem title_span_may_skip_terminator:
  "title (parse_patent_info ''(54)\<newline>\<newline>(57) Abstract'') = ''(57) Abstract'' \<and>
   stated_title ''(54)\<newline>\<newline>(57) Abstract'' = []"
  by code_simp

section \<open>Claims about the inventors rule\<close>

lemma inventors_span_nonblank:
  assumes "find_first inventors_heading s = Some r"
    and "\<not> list_all isspace (until section_end r)"
  shows "\<exists>c. inventors_span s = Some c \<and> strip c = strip (until section_end r)"
proof -
  from span_nonblank[OF assms(2)] obtain c where
    c: "span_after section_end r = Some c" "strip c = strip (until section_end r)"
    by blast
  from c(1) have "span_after section_end r \<noteq> None" by simp
  from find_first_compose[OF assms(1), of "span_after section_end", OF this] c
  show ?thesis unfolding inventors_span_def inventors_heading_def by simp
qed

lemma inventors_of_span:
  assumes "find_first inventors_heading s = Some r"
    and "\<not> list_all isspace (until section_end r)"
  shows "inventors (parse_patent_info s) = replace_newline (strip (until section_end r))"
proof -
  from inventors_span_nonblank[OF assms] obtain c where
    "inventors_span s = Some c" "strip c = strip (until section_end r)"
    by blast
  then show ?thesis unfolding inventors_refines by simp
qed

lemma names_span:
  "until section_end ('' Jane Doe; John Smith\<newline>\<newline>'' @ suf) = '' Jane Doe; John Smith''"
  by (simp add: section_end_def at_section_marker_first)

lemma names_field:
  "replace_newline (strip '' Jane Doe; John Smith'') = ''Jane Doe; John Smith''"
  by code_simp

lemma names_nonblank: "\<not> list_all isspace '' Jane Doe; John Smith''"
  by code_simp

text \<open>
  Claim C5, as the code has it by design. The inventors field is taken at the leftmost
  heading \<open>Inventor:\<close> or \<open>Inventors:\<close>, in any capitalisation. Whenever the text after
  that heading, up to the next numeric section marker \<open>(dd)\<close>, pair of newlines or end of
  text, holds a character that is not whitespace, the field is that text, stripped and with
  each newline replaced by a space. When the leftmost heading is followed by
  \<open>Jane Doe; John Smith\<close> and a blank line, the field is \<open>Jane Doe; John Smith\<close>; a text
  with no such heading gives \<open>Inventors N/A\<close>. Nothing is said here of a heading whose
  text up to the next terminator is blank.
\<close>

theorem inventors_rule:
  "(find_first inventors_heading t1 = Some r \<and>
    \<not> list_all isspace (until section_end r) \<longrightarrow>
      inventors (parse_patent_info t1) = replace_newline (strip (until section_end r))) \<and>
   (find_first inventors_heading t2 = Some ('' Jane Doe; John Smith\<newline>\<newline>'' @ suf) \<longrightarrow>
      inventors (parse_patent_info t2) = ''Jane Doe; John Smith'') \<and>
   (\<not> sublist ''inventor:'' (map tolower t3) \<and> \<not> sublist ''inventors:'' (map tolower t3) \<longrightarrow>
      inventors (parse_patent_info t3) = ''Inventors N/A'')"
proof (intro conjI impI)
  assume "find_first inventors_heading t1 = Some r \<and>
    \<not> list_all isspace (until section_end r)"
  then show "inventors (parse_patent_info t1) = replace_newline (strip (until section_end r))"
    by (intro inventors_of_span) blast+
next
  assume a: "find_first inventors_heading t2 = Some ('' Jane Doe; John Smith\<newline>\<newline>'' @ suf)"
  have "\<not> list_all isspace (until section_end ('' Jane Doe; John Smith\<newline>\<newline>'' @ suf))"
    unfolding names_span by (rule names_nonblank)
  from inventors_of_span[OF a this]
  show "inventors (parse_patent_info t2) = ''Jane Doe; John Smith''"
    unfolding names_span names_field .
next
  assume "\<not> sublist ''inventor:'' (map tolower t3) \<and> \<not> sublist ''inventors:'' (map tolower t3)"
  then have "inventors_span t3 = None"
    by (intro inventors_no_heading) blast+
  then show "inventors (parse_patent_info t3) = ''Inventors N/A''"
    unfolding inventors_refines by simp
qed

lemma witness_first_heading:
  "find_first inventors_heading
     ''inventor Inventors: Jane Doe; John Smith\<newline>\<newline>(57) Abstract'' =
     Some ('' Jane Doe; John Smith\<newline>\<newline>'' @ ''(57) Abstract'')"
  by code_simp

lemma witness_names_nonblank:
  "\<not> list_all isspace (until section_end ('' Jane Doe; John Smith\<newline>\<newline>'' @ ''(57) Abstract''))"
  by code_simp

theorem inventors_rule_witness:
  "find_first inventors_heading
     ''inventor Inventors: Jane Doe; John Smith\<newline>\<newline>(57) Abstract'' =
     Some ('' Jane Doe; John Smith\<newline>\<newline>'' @ ''(57) Abstract'') \<and>
   \<not> list_all isspace (until section_end ('' Jane Doe; John Smith\<newline>\<newline>'' @ ''(57) Abstract'')) \<and>
   inventors (parse_patent_info
     ''inventor Inventors: Jane Doe; John Smith\<newline>\<newline>(57) Abstract'') =
     ''Jane Doe; John Smith'' \<and>
   \<not> sublist ''inventor:'' (map tolower ''no heading'') \<and>
   \<not> sublist ''inventors:'' (map tolower ''no heading'') \<and>
   inventors (parse_patent_info ''no heading'') = ''Inventors N/A''"
  using inventors_rule[of
      "''inventor Inventors: Jane Doe; John Smith\<newline>\<newline>(57) Abstract''"
      "'' Jane Doe; John Smith\<newline>\<newline>'' @ ''(57) Abstract''"
      "''inventor Inventors: Jane Doe; John Smith\<newline>\<newline>(57) Abstract''"
      "''(57) Abstract''" "''no heading''"]
    witness_first_heading witness_names_nonblank no_inventor_heading
  by blast

text \<open>
  The claim as stated, that a text containing the example has the example's inventors,
  fails when another heading stands to the left: the search takes the leftmost one.
\<close>

theorem inventors_takes_first_heading:
  "inventors (parse_patent_info
     (''Inventor: X\<newline>\<newline>'' @ ''Inventors: Jane Doe; John Smith\<newline>\<newline>(57) Abstract'')) = ''X''"
  by code_simp

text \<open>
  Where a terminator follows the heading at once, the code does not stop at it: the section
  marker after the blank line becomes the inventors field, although the lookahead of the
  pattern is there to stop at the section boundary.
\<close>

theorem inventors_span_may_skip_terminator:
  "inventors (parse_patent_info ''Inventors:\<newline>\<newline>(57) Abstract'') = ''(57) Abstract'' \<and>
   stated_inventors ''Inventors:\<newline>\<newline>(57) Abstract'' = []"
  by code_simp

section \<open>What a match of the matcher consumes\<close>

lemma match_lit_exact:
  "match_here False (lit h @ R) (b, s, go, gc) =
     (if prefix h s then match_here False R (rev h @ b, drop (length h) s, go, gc) else None)"
proof (induction h arbitrary: b s)
  case Nil
  show ?case by (simp add: lit_def)
next
  case (Cons c h)
  show ?case
  proof (cases s)
    case Nil
    then show ?thesis by (simp add: lit_def)
  next
    case s: (Cons x xs)
    from Cons.IH[of "x # b" xs] show ?thesis
      unfolding s by (auto simp: lit_def in_cset_cs)
  qed
qed

lemma rep_zero_nil:
  "match_here ic (Rep c 0 hi g # R) (b, [], go, gc) = match_here ic R (b, [], go, gc)"
proof (cases hi)
  case None
  then show ?thesis by simp
next
  case (Some n)
  then show ?thesis by (cases n) simp_all
qed

lemma rep_consumes:
  "match_here ic (Rep c lo hi g # R) (b, s, go, gc) = Some r \<Longrightarrow>
   \<exists>ws s'. s = ws @ s' \<and> list_all (in_cset ic c) ws \<and>
     match_here ic R (rev ws @ b, s', go, gc) = Some r"
proof (induction s arbitrary: lo hi b)
  case Nil
  then show ?case
    by (cases lo) (auto simp: rep_zero_nil simp del: match_here.simps(6,7))
next
  case (Cons x xs)
  have step: "\<exists>ws s'. x # xs = ws @ s' \<and> list_all (in_cset ic c) ws \<and>
      match_here ic R (rev ws @ b, s', go, gc) = Some r"
    if "in_cset ic c x"
      and "match_here ic (Rep c lo' hi' g # R) (x # b, xs, go, gc) = Some r" for lo' hi'
  proof -
    from Cons.IH[OF that(2)] obtain ws s' where
      "xs = ws @ s'" "list_all (in_cset ic c) ws"
      "match_here ic R (rev ws @ x # b, s', go, gc) = Some r"
      by blast
    with that(1) show ?thesis
      by (intro exI[of _ "x # ws"] exI[of _ s']) simp
  qed
  have stay: "\<exists>ws s'. x # xs = ws @ s' \<and> list_all (in_cset ic c) ws \<and>
      match_here ic R (rev ws @ b, s', go, gc) = Some r"
    if "match_here ic R (b, x # xs, go, gc) = Some r"
    using that by (intro exI[of _ "[]"] exI[of _ "x # xs"]) simp
  have "match_here ic R (b, x # xs, go, gc) = Some r \<or>
        (in_cset ic c x \<and>
         match_here ic (Rep c (lo - 1) (dec hi) g # R) (x # b, xs, go, gc) = Some r)"
  proof (cases lo)
    case (Suc lo')
    with Cons.prems show ?thesis
      by (auto split: if_splits)
  next
    case lo: 0
    show ?thesis
    proof (cases "hi = Some 0")
      case True
      with lo Cons.prems show ?thesis by auto
    next
      case False
      then have hi: "hi = None \<or> (\<exists>n. hi = Some (Suc n))"
        by (cases hi) (auto simp: gr0_conv_Suc)
      show ?thesis
      proof (cases g)
        case True
        with lo hi Cons.prems show ?thesis
          by (auto split: if_splits option.splits)
      next
        case False
        with lo hi Cons.prems show ?thesis
          by (auto split: if_splits option.splits)
      qed
    qed
  qed
  then show ?case
    using step stay by blast
qed

lemma alt_chooses:
  "match_here ic (Alt alts # R) st = Some r \<Longrightarrow>
   \<exists>a \<in> set alts. match_here ic (a @ R) st = Some r"
  by (induction alts) (auto split: option.splits)

lemma date_here:
  assumes "match_here False date_rx (b, s, [], []) = Some r"
  shows "\<exists>ws1 ws2 mon rest.
           s = ''(45)'' @ ws1 @ ''Date of Patent:'' @ ws2 @ mon @ ''.'' @ rest \<and>
           list_all isspace ws1 \<and> list_all isspace ws2 \<and> mon \<in> set months"
proof -
  let ?R3 = "lit ''.'' @ [One Space, Rep Digit 1 (Some 2) True] @ lit '','' @
     [One Space, Rep Digit 4 (Some 4) True, WordBoundary, GClose]"
  let ?R2 = "[GOpen, WordBoundary, Alt (map lit months)] @ ?R3"
  let ?R1 = "lit ''Date of Patent:'' @ Rep Space 0 None True # ?R2"
  have rx: "date_rx = lit ''(45)'' @ Rep Space 0 None True # ?R1"
    by (simp add: date_rx_def)
  from assms have p1: "prefix ''(45)'' s"
    and m1: "match_here False (Rep Space 0 None True # ?R1)
               (rev ''(45)'' @ b, drop (length ''(45)'') s, [], []) = Some r"
    unfolding rx match_lit_exact by (simp_all split: if_splits)
  from p1 obtain s1 where s1: "s = ''(45)'' @ s1"
    by (auto simp: prefix_def)
  from rep_consumes[OF m1] obtain ws1 s2 where
    s2: "drop (length ''(45)'') s = ws1 @ s2" and w1: "list_all (in_cset False Space) ws1"
    and m2: "match_here False ?R1 (rev ws1 @ rev ''(45)'' @ b, s2, [], []) = Some r"
    by blast
  from m2 have p2: "prefix ''Date of Patent:'' s2"
    and m3: "match_here False (Rep Space 0 None True # ?R2)
               (rev ''Date of Patent:'' @ rev ws1 @ rev ''(45)'' @ b,
                drop (length ''Date of Patent:'') s2, [], []) = Some r"
    unfolding match_lit_exact by (simp_all split: if_splits)
  from p2 obtain s3 where s3: "s2 = ''Date of Patent:'' @ s3"
    by (auto simp: prefix_def)
  from rep_consumes[OF m3] obtain ws2 s4 where
    s4: "drop (length ''Date of Patent:'') s2 = ws2 @ s4"
    and w2: "list_all (in_cset False Space) ws2"
    and m4: "match_here False ?R2
               (rev ws2 @ rev ''Date of Patent:'' @ rev ws1 @ rev ''(45)'' @ b, s4, [], []) =
             Some r"
    by blast
  define b4 where "b4 = rev ws2 @ rev ''Date of Patent:'' @ rev ws1 @ rev ''(45)'' @ b"
  from m4 have "match_here False (Alt (map lit months) # ?R3) (b4, s4, b4, []) = Some r"
    unfolding b4_def by (simp split: if_splits)
  from alt_chooses[OF this] obtain mon where
    mon: "mon \<in> set months"
    and m5: "match_here False (lit mon @ ?R3) (b4, s4, b4, []) = Some r"
    by auto
  from m5 have p5: "prefix mon s4"
    and m6: "match_here False ?R3 (rev mon @ b4, drop (length mon) s4, b4, []) = Some r"
    unfolding match_lit_exact by (simp_all split: if_splits)
  from m6 have p6: "prefix ''.'' (drop (length mon) s4)"
    unfolding match_lit_exact by (simp split: if_splits)
  from p5 obtain s5 where s5: "s4 = mon @ s5"
    by (auto simp: prefix_def)
  from p6 s5 obtain rest where s6: "s5 = ''.'' @ rest"
    by (auto simp: prefix_def)
  from s1 s2 s3 s4 s5 s6 have "s = ''(45)'' @ ws1 @ ''Date of Patent:'' @ ws2 @ mon @ ''.'' @ rest"
    by simp
  with w1 w2 mon show ?thesis
    by (auto simp: list_all_iff)
qed

lemma search_position:
  "search_from ic rs b s = Some (b0, r) \<Longrightarrow>
   \<exists>p q. s = p @ q \<and> b0 = rev p @ b \<and> match_here ic rs (b0, q, [], []) = Some r"
proof (induction s arbitrary: b)
  case Nil
  then show ?case by (auto split: option.splits)
next
  case (Cons x xs)
  show ?case
  proof (cases "match_here ic rs (b, x # xs, [], [])")
    case (Some r')
    with Cons.prems show ?thesis
      by (intro exI[of _ "[]"] exI[of _ "x # xs"]) simp
  next
    case None
    with Cons.prems have "search_from ic rs (x # b) xs = Some (b0, r)" by simp
    from Cons.IH[OF this] obtain p q where
      "xs = p @ q" "b0 = rev p @ x # b" "match_here ic rs (b0, q, [], []) = Some r"
      by blast
    then show ?thesis
      by (intro exI[of _ "x # p"] exI[of _ q]) simp
  qed
qed


lemma date_match_heading:
  assumes "date_match text = Some m"
  shows "\<exists>pre ws1 ws2 mon rest.
           text = pre @ ''(45)'' @ ws1 @ ''Date of Patent:'' @ ws2 @ mon @ ''.'' @ rest \<and>
           list_all isspace ws1 \<and> list_all isspace ws2 \<and> mon \<in> set months"
proof -
  obtain b0 r where m: "m = (b0, r)" by (cases m)
  from assms have "search_from False date_rx [] text = Some (b0, r)"
    by (simp add: date_match_def re_search_def m)
  from search_position[OF this] obtain p q where
    t: "text = p @ q" and "match_here False date_rx (b0, q, [], []) = Some r"
    by blast
  from date_here[OF this(2)] t show ?thesis
    by blast
qed

lemma number_match_heading:
  assumes "number_match text = Some m"
  shows "\<exists>pre rest. text = pre @ ''US'' @ rest"
proof -
  obtain b0 r where m: "m = (b0, r)" by (cases m)
  from assms have "search_from False number_rx [] text = Some (b0, r)"
    by (simp add: number_match_def re_search_def m)
  from search_position[OF this] obtain p q where
    t: "text = p @ q" and q: "match_here False number_rx (b0, q, [], []) = Some r"
    by blast
  have rx: "number_rx = lit ''US'' @ One Space # Rep Digit 1 (Some 3) True # lit '','' @
     [Rep Digit 3 (Some 3) True] @ lit '','' @
     [Rep Digit 3 (Some 3) True, One Space, One Word, One Digit]"
    by (simp add: number_rx_def)
  from q have "prefix ''US'' q"
    unfolding rx match_lit_exact by (simp split: if_splits)
  with t show ?thesis
    by (auto simp: prefix_def)
qed

section \<open>Matching that ignores case\<close>

lemma isspace_tolower [simp]: "isspace (tolower x) = isspace x"
  unfolding isspace_def Let_def of_char_tolower by auto

lemma isdecimal_tolower [simp]: "isdecimal (tolower x) = isdecimal x"
  unfolding isdecimal_def Let_def of_char_tolower by auto

lemma tolower_underscore: "(tolower x = CHR ''_'') = (x = CHR ''_'')"
proof -
  have "(tolower x = CHR ''_'') = ((of_char (tolower x) :: nat) = of_char CHR ''_'')"
    by (simp only: of_char_eq_iff)
  also have "\<dots> = ((of_char x :: nat) = of_char CHR ''_'')"
    unfolding of_char_tolower by auto
  also have "\<dots> = (x = CHR ''_'')"
    by (simp only: of_char_eq_iff)
  finally show ?thesis .
qed

lemma isword_tolower [simp]: "isword (tolower x) = isword x"
proof -
  have "isalnum (tolower x) = isalnum x"
    unfolding isalnum_def isalpha_def isdecimal_def Let_def of_char_tolower by auto
  then show ?thesis
    by (simp add: isword_def tolower_underscore)
qed

lemma tolower_idem [simp]: "tolower (tolower x) = tolower x"
proof -
  have "(of_char (tolower (tolower x)) :: nat) = of_char (tolower x)"
    unfolding of_char_tolower[of "tolower x"] unfolding of_char_tolower[of x] by auto
  then show ?thesis by (simp only: of_char_eq_iff)
qed

lemma in_cset_tolower [simp]: "in_cset True c (tolower x) = in_cset True c x"
  by (induction c) (simp_all add: in_cset_ci)

lemma at_boundary_tolower [simp]:
  "at_boundary (map tolower b) (map tolower s) = at_boundary b s"
  by (cases b; cases s) simp_all

lemma match_here_tolower:
  "ic \<Longrightarrow> match_here ic rs (low_state st) = map_option low_state (match_here ic rs st)"
  by (induction ic rs st rule: match_here.induct) (auto split: option.splits if_splits)


lemma search_from_tolower:
  "search_from True rs (map tolower b) (map tolower s) =
     map_option low_match (search_from True rs b s)"
proof (induction s arbitrary: b)
  case Nil
  from match_here_tolower[of True rs "(b, [], [], [])"] show ?case
    by (cases "match_here True rs (b, [], [], [])") simp_all
next
  case (Cons x xs)
  from match_here_tolower[of True rs "(b, x # xs, [], [])"] Cons.IH[of "x # b"] show ?case
    by (cases "match_here True rs (b, x # xs, [], [])") simp_all
qed

lemma re_search_tolower:
  "re_search rs True (map tolower t) = map_option low_match (re_search rs True t)"
  unfolding re_search_def using search_from_tolower[of rs "[]" t] by simp

lemma group1_tolower: "group1 (low_match m) = map tolower (group1 m)"
proof -
  obtain b0 b s go gc where m: "m = (b0, b, s, go, gc)"
    by (cases m) auto
  show ?thesis
    unfolding m by (simp add: rev_map take_map)
qed

lemma re_search_caseless:
  assumes "map tolower t1 = map tolower t2"
  shows "map_option (\<lambda>m. map tolower (group1 m)) (re_search rs True t1) =
         map_option (\<lambda>m. map tolower (group1 m)) (re_search rs True t2)"
proof -
  have "map_option (\<lambda>m. map tolower (group1 m)) (re_search rs True t) =
        map_option group1 (re_search rs True (map tolower t))" for t
    unfolding re_search_tolower by (simp add: option.map_comp comp_def group1_tolower)
  with assms show ?thesis by simp
qed

lemma lstrip_tolower: "lstrip (map tolower s) = map tolower (lstrip s)"
  by (simp add: lstrip_def dropWhile_map comp_def)

lemma rstrip_tolower: "rstrip (map tolower s) = map tolower (rstrip s)"
  by (simp add: rstrip_def dropWhile_map comp_def rev_map)

lemma strip_tolower: "strip (map tolower s) = map tolower (strip s)"
  by (simp add: strip_def lstrip_tolower rstrip_tolower)

lemma tolower_newline: "(tolower x = CHR ''\<newline>'') = (x = CHR ''\<newline>'')"
  using ci_caseless[of "CHR ''\<newline>''" x] by (simp add: tolower_def)

lemma tolower_space: "tolower CHR '' '' = CHR '' ''"
  by (simp add: tolower_def)

lemma replace_newline_tolower:
  "replace_newline (map tolower s) = map tolower (replace_newline s)"
  by (simp add: replace_newline_def tolower_newline tolower_space)

lemma lstrip_chars_tolower:
  "lstrip_chars '')'' (map tolower s) = map tolower (lstrip_chars '')'' s)"
  by (simp add: lstrip_chars_def dropWhile_map comp_def tolower_close)

lemma title_caseless:
  assumes "map tolower t1 = map tolower t2"
  shows "map tolower (title (parse_patent_info t1)) =
         map tolower (title (parse_patent_info t2))"
proof -
  define F where "F = (\<lambda>r. case r of Some g \<Rightarrow> lstrip_chars '')'' (replace_newline (strip g))
                               | None \<Rightarrow> map tolower (lstrip_chars '')'' ''Title N/A''))"
  have "map tolower (title (parse_patent_info t)) =
        F (map_option (\<lambda>m. map tolower (group1 m)) (re_search title_rx True t))" for t
    by (simp add: F_def parse_patent_info_def title_match_def Let_def strip_tolower
          replace_newline_tolower lstrip_chars_tolower split: option.splits)
  then show ?thesis
    by (simp only: re_search_caseless[OF assms, of title_rx])
qed

lemma inventors_caseless:
  assumes "map tolower t1 = map tolower t2"
  shows "map tolower (inventors (parse_patent_info t1)) =
         map tolower (inventors (parse_patent_info t2))"
proof -
  define F where "F = (\<lambda>r. case r of Some g \<Rightarrow> replace_newline (strip g)
                               | None \<Rightarrow> map tolower ''Inventors N/A'')"
  have "map tolower (inventors (parse_patent_info t)) =
        F (map_option (\<lambda>m. map tolower (group1 m)) (re_search inventors_rx True t))" for t
    by (simp add: F_def parse_patent_info_def inventors_match_def Let_def strip_tolower
          replace_newline_tolower split: option.splits)
  then show ?thesis
    by (simp only: re_search_caseless[OF assms, of inventors_rx])
qed

lemma abstract_caseless:
  assumes "map tolower t1 = map tolower t2"
  shows "map tolower (abstract (parse_patent_info t1)) =
         map tolower (abstract (parse_patent_info t2))"
proof -
  define F where "F = (\<lambda>r. case r of Some g \<Rightarrow> strip g
                               | None \<Rightarrow> map tolower ''Abstract N/A'')"
  have "map tolower (abstract (parse_patent_info t)) =
        F (map_option (\<lambda>m. map tolower (group1 m)) (re_search abstract_rx True t))" for t
    by (simp add: F_def parse_patent_info_def abstract_match_def Let_def strip_tolower
           split: option.splits)
  then show ?thesis
    by (simp only: re_search_caseless[OF assms, of abstract_rx])
qed

lemma match_caseless:
  assumes "map tolower t1 = map tolower t2"
  shows "(re_search rs True t1 = None) = (re_search rs True t2 = None)"
  using re_search_caseless[OF assms, of rs]
  by (cases "re_search rs True t1"; cases "re_search rs True t2") simp_all

section \<open>Claims about case\<close>

lemma date_example:
  "date (parse_patent_info ''(45) Date of Patent: Jan. 5, 2021'') = ''Jan. 5, 2021''"
  by code_simp

lemma date_heading_upper:
  "date (parse_patent_info ''(45) DATE OF PATENT: Jan. 5, 2021'') = ''Date N/A''"
  by code_simp

lemma date_month_upper:
  "date (parse_patent_info ''(45) Date of Patent: JAN. 5, 2021'') = ''Date N/A''"
  by code_simp

lemma inventors_heading_upper:
  "inventors (parse_patent_info ''INVENTORS: Ann'') = ''Ann''"
  by code_simp

lemma abstract_heading_upper:
  "abstract (parse_patent_info ''ABSTRACT: foo'') = ''foo''"
  by code_simp

lemma date_extracted:
  assumes "date (parse_patent_info text) \<noteq> ''Date N/A''"
  shows "\<exists>pre ws1 ws2 mon rest.
           text = pre @ ''(45)'' @ ws1 @ ''Date of Patent:'' @ ws2 @ mon @ ''.'' @ rest \<and>
           list_all isspace ws1 \<and> list_all isspace ws2 \<and> mon \<in> set months"
proof (cases "date_match text")
  case None
  with assms show ?thesis
    by (simp add: parse_patent_info_def Let_def)
next
  case (Some m)
  then show ?thesis by (rule date_match_heading)
qed

lemma number_extracted:
  assumes "number (parse_patent_info text) \<noteq> ''PATENT # N/A''"
  shows "\<exists>pre rest. text = pre @ ''US'' @ rest"
proof (cases "number_match text")
  case None
  with assms show ?thesis
    by (simp add: parse_patent_info_def Let_def)
next
  case (Some m)
  then show ?thesis by (rule number_match_heading)
qed

text \<open>
  Claim C10, as the code has it by design. The date rule and the number rule are compiled
  without \<open>re.IGNORECASE\<close>. The date is extracted only from a text that holds \<open>(45)\<close>,
  whitespace, \<open>Date of Patent:\<close>, whitespace, one of the twelve month abbreviations and
  a period, all in exactly this capitalisation; the headings \<open>(45) DATE OF PATENT:\<close> and
  the month \<open>JAN.\<close> give \<open>Date N/A\<close>. The number is extracted only from a text that
  holds \<open>US\<close> in capitals. The title, inventors and abstract rules ignore case: two texts
  that differ only in the case of their letters have each of these fields extracted in both
  or in neither, and the fields differ only in the case of their letters.
\<close>

theorem case_sensitivity_of_rules:
  "(date (parse_patent_info t1) \<noteq> ''Date N/A'' \<longrightarrow>
      (\<exists>pre ws1 ws2 mon rest.
          t1 = pre @ ''(45)'' @ ws1 @ ''Date of Patent:'' @ ws2 @ mon @ ''.'' @ rest \<and>
          list_all isspace ws1 \<and> list_all isspace ws2 \<and> mon \<in> set months)) \<and>
   date (parse_patent_info ''(45) Date of Patent: Jan. 5, 2021'') = ''Jan. 5, 2021'' \<and>
   date (parse_patent_info ''(45) DATE OF PATENT: Jan. 5, 2021'') = ''Date N/A'' \<and>
   date (parse_patent_info ''(45) Date of Patent: JAN. 5, 2021'') = ''Date N/A'' \<and>
   (number (parse_patent_info t2) \<noteq> ''PATENT # N/A'' \<longrightarrow>
      (\<exists>pre rest. t2 = pre @ ''US'' @ rest)) \<and>
   (map tolower t3 = map tolower t4 \<longrightarrow>
      (title_match t3 = None) = (title_match t4 = None) \<and>
      (inventors_match t3 = None) = (inventors_match t4 = None) \<and>
      (abstract_match t3 = None) = (abstract_match t4 = None) \<and>
      map tolower (title (parse_patent_info t3)) = map tolower (title (parse_patent_info t4)) \<and>
      map tolower (inventors (parse_patent_info t3)) =
        map tolower (inventors (parse_patent_info t4)) \<and>
      map tolower (abstract (parse_patent_info t3)) =
        map tolower (abstract (parse_patent_info t4))) \<and>
   inventors (parse_patent_info ''INVENTORS: Ann'') = ''Ann'' \<and>
   abstract (parse_patent_info ''ABSTRACT: foo'') = ''foo''"
proof (intro conjI impI)
  assume "date (parse_patent_info t1) \<noteq> ''Date N/A''"
  then show "\<exists>pre ws1 ws2 mon rest.
          t1 = pre @ ''(45)'' @ ws1 @ ''Date of Patent:'' @ ws2 @ mon @ ''.'' @ rest \<and>
          list_all isspace ws1 \<and> list_all isspace ws2 \<and> mon \<in> set months"
    by (rule date_extracted)
next
  assume "number (parse_patent_info t2) \<noteq> ''PATENT # N/A''"
  then show "\<exists>pre rest. t2 = pre @ ''US'' @ rest"
    by (rule number_extracted)
next
  assume e: "map tolower t3 = map tolower t4"
  from match_caseless[OF e] show "(title_match t3 = None) = (title_match t4 = None)"
    unfolding title_match_def .
  from match_caseless[OF e] show "(inventors_match t3 = None) = (inventors_match t4 = None)"
    unfolding inventors_match_def .
  from match_caseless[OF e] show "(abstract_match t3 = None) = (abstract_match t4 = None)"
    unfolding abstract_match_def .
  from e show "map tolower (title (parse_patent_info t3)) =
      map tolower (title (parse_patent_info t4))"
    by (rule title_caseless)
  from e show "map tolower (inventors (parse_patent_info t3)) =
        map tolower (inventors (parse_patent_info t4))"
    by (rule inventors_caseless)
  from e show "map tolower (abstract (parse_patent_info t3)) =
        map tolower (abstract (parse_patent_info t4))"
    by (rule abstract_caseless)
qed (rule date_example date_heading_upper date_month_upper inventors_heading_upper
    abstract_heading_upper)+

lemma witness_date_found:
  "date (parse_patent_info ''(45) Date of Patent: Jan. 5, 2021'') \<noteq> ''Date N/A''"
  by code_simp

lemma witness_number_found:
  "number (parse_patent_info ''US 10,123,456 B2'') \<noteq> ''PATENT # N/A''"
  by code_simp

lemma witness_same_letters:
  "map tolower ''(54) Widget\<newline>\<newline>Inventors: Ann\<newline>\<newline>Abstract: foo'' =
   map tolower ''(54) WIDGET\<newline>\<newline>INVENTORS: ANN\<newline>\<newline>ABSTRACT: FOO''"
  by code_simp

theorem case_sensitivity_of_rules_witness:
  "date (parse_patent_info ''(45) Date of Patent: Jan. 5, 2021'') \<noteq> ''Date N/A'' \<and>
   (\<exists>pre ws1 ws2 mon rest.
      ''(45) Date of Patent: Jan. 5, 2021'' =
        pre @ ''(45)'' @ ws1 @ ''Date of Patent:'' @ ws2 @ mon @ ''.'' @ rest \<and>
      list_all isspace ws1 \<and> list_all isspace ws2 \<and> mon \<in> set months) \<and>
   number (parse_patent_info ''US 10,123,456 B2'') \<noteq> ''PATENT # N/A'' \<and>
   (\<exists>pre rest. ''US 10,123,456 B2'' = pre @ ''US'' @ rest) \<and>
   map tolower ''(54) Widget\<newline>\<newline>Inventors: Ann\<newline>\<newline>Abstract: foo'' =
     map tolower ''(54) WIDGET\<newline>\<newline>INVENTORS: ANN\<newline>\<newline>ABSTRACT: FOO'' \<and>
   map tolower (title (parse_patent_info
       ''(54) Widget\<newline>\<newline>Inventors: Ann\<newline>\<newline>Abstract: foo'')) =
     map tolower (title (parse_patent_info
       ''(54) WIDGET\<newline>\<newline>INVENTORS: ANN\<newline>\<newline>ABSTRACT: FOO''))"
  using case_sensitivity_of_rules[of "''(45) Date of Patent: Jan. 5, 2021''"
      "''US 10,123,456 B2''"
      "''(54) Widget\<newline>\<newline>Inventors: Ann\<newline>\<newline>Abstract: foo''"
      "''(54) WIDGET\<newline>\<newline>INVENTORS: ANN\<newline>\<newline>ABSTRACT: FOO''"]
    witness_date_found witness_number_found witness_same_letters
  by blast

text \<open>
  The claim as stated, that the date rule is the only case-sensitive one, fails on the
  number rule: \<open>us\<close> in lower case is not taken for \<open>US\<close>.
\<close>

theorem number_rule_is_case_sensitive:
  "number (parse_patent_info ''US 10,123,456 B2'') = ''US 10,123,456 B2'' \<and>
   number (parse_patent_info ''us 10,123,456 B2'') = ''PATENT # N/A''"
  by code_simp

end
